theory Spec2Isabelle
  imports
    Main
    "HOL-Library.Word"
    "HOL-Library.Multiset"
    "HOL-Library.Char_ord"
    "HOL-Library.List_Lexorder"
    "HOL-Library.Product_Lexorder"
begin

unbundle bit_operations_syntax

section \<open>The C library functions the program calls\<close>

text \<open>
  A C string is modelled as a \<open>string\<close> (the bytes before the terminating NUL).
  \<open>isspace\<close> and \<open>isdigit\<close> are those of the "C" locale. Of \<open>strcmp\<close> the C
  standard fixes only the sign, the bytes compared as \<open>unsigned char\<close>; the model
  returns -1, 0 or 1.
\<close>

definition isspace :: "char \<Rightarrow> bool" where
  "isspace c = (c = CHR '' '' \<or> (9 \<le> (of_char c :: nat) \<and> (of_char c :: nat) \<le> 13))"

definition isdigit :: "char \<Rightarrow> bool" where
  "isdigit c = (48 \<le> (of_char c :: nat) \<and> (of_char c :: nat) \<le> 57)"

fun strcmp :: "string \<Rightarrow> string \<Rightarrow> int" where
  "strcmp [] [] = 0"
| "strcmp [] (b # bs) = - 1"
| "strcmp (a # as) [] = 1"
| "strcmp (a # as) (b # bs) =
     (if a = b then strcmp as bs
      else if (of_char a :: nat) < of_char b then - 1 else 1)"

text \<open>\<open>strchr s c\<close>: the suffix of \<open>s\<close> that starts at the first \<open>c\<close>, if any.\<close>

fun strchr :: "string \<Rightarrow> char \<Rightarrow> string option" where
  "strchr [] c = None"
| "strchr (x # xs) c = (if x = c then Some (x # xs) else strchr xs c)"

text \<open>
  Decimal conversion as \<open>%d\<close> of \<open>sscanf\<close> and \<open>atoi\<close> do it: white space is
  skipped, then an optional sign, then the longest run of digits. Both go through
  \<open>strtol\<close>, which clamps the value of the literal to the range of \<open>long\<close>
  (64 bits), and store the result in an \<open>int\<close> (32 bits), which keeps the low 32 bits
  in two's complement: \<open>4294967296\<close> reads as 0 and \<open>4294969321\<close> as 2025.
\<close>

fun digits_val :: "int \<Rightarrow> string \<Rightarrow> int" where
  "digits_val acc [] = acc"
| "digits_val acc (c # cs) = digits_val (acc * 10 + (int (of_char c) - 48)) cs"

definition strtol_clamp :: "int \<Rightarrow> int" where
  "strtol_clamp v =
     (if v > 9223372036854775807 then 9223372036854775807
      else if v < - 9223372036854775808 then - 9223372036854775808
      else v)"

definition int_of_long :: "int \<Rightarrow> int" where
  "int_of_long v = (v + 2147483648) mod 4294967296 - 2147483648"

definition scan_int :: "string \<Rightarrow> (int \<times> string) option" where
  "scan_int s =
     (let s1 = dropWhile isspace s;
          neg = (s1 \<noteq> [] \<and> hd s1 = CHR ''-'');
          s2 = (if s1 \<noteq> [] \<and> (hd s1 = CHR ''-'' \<or> hd s1 = CHR ''+'') then tl s1 else s1);
          ds = takeWhile isdigit s2
      in if ds = [] then None
         else Some (int_of_long (strtol_clamp (if neg then - digits_val 0 ds else digits_val 0 ds)),
                    dropWhile isdigit s2))"

definition atoi :: "string \<Rightarrow> int" where
  "atoi s = (case scan_int s of None \<Rightarrow> 0 | Some (v, r) \<Rightarrow> v)"

text \<open>
  \<open>sscanf(s, "%d-%d-%d", &d, &m, &y) == 3\<close>: three conversions separated by
  literal hyphens; \<open>None\<close> when fewer than three values are converted.
\<close>

definition sscanf_date :: "string \<Rightarrow> (int \<times> int \<times> int) option" where
  "sscanf_date s =
     (case scan_int s of None \<Rightarrow> None
      | Some (d, r1) \<Rightarrow>
        (case r1 of [] \<Rightarrow> None
         | c1 # r1' \<Rightarrow>
           if c1 \<noteq> CHR ''-'' then None
           else (case scan_int r1' of None \<Rightarrow> None
             | Some (m, r2) \<Rightarrow>
               (case r2 of [] \<Rightarrow> None
                | c2 # r2' \<Rightarrow>
                  if c2 \<noteq> CHR ''-'' then None
                  else (case scan_int r2' of None \<Rightarrow> None
                    | Some (y, r3) \<Rightarrow> Some (d, m, y))))))"

text \<open>
  \<open>strtok_r(s, " ", &rest)\<close>: skip the delimiters; at the end of the string there is
  no token (and \<open>rest\<close> is the empty remainder); otherwise the token runs to the next
  delimiter, which is overwritten, and \<open>rest\<close> starts after it.
\<close>

definition strtok_r :: "string \<Rightarrow> string option \<times> string" where
  "strtok_r s =
     (let s1 = dropWhile (\<lambda>c. c = CHR '' '') s
      in if s1 = [] then (None, [])
         else (Some (takeWhile (\<lambda>c. c \<noteq> CHR '' '') s1),
               (case dropWhile (\<lambda>c. c \<noteq> CHR '' '') s1 of [] \<Rightarrow> [] | d # r \<Rightarrow> r)))"

text \<open>\<open>printf("%d")\<close> and \<open>printf("%02d")\<close>.\<close>

definition digit_char :: "nat \<Rightarrow> char" where
  "digit_char n = ''0123456789'' ! n"

fun nat_digits :: "nat \<Rightarrow> string" where
  "nat_digits n =
     (if n < 10 then [digit_char n]
      else nat_digits (n div 10) @ [digit_char (n mod 10)])"

declare nat_digits.simps [simp del]

definition fmt_d :: "int \<Rightarrow> string" where
  "fmt_d i = (if i < 0 then CHR ''-'' # nat_digits (nat (- i)) else nat_digits (nat i))"

definition fmt_02d :: "int \<Rightarrow> string" where
  "fmt_02d i = (if 0 \<le> i \<and> i < 10 then CHR ''0'' # fmt_d i else fmt_d i)"

section \<open>Data model (project.h, constants.h)\<close>

definition HASH_SIZE :: nat where "HASH_SIZE = 1009"
definition MAX_VACCINES :: int where "MAX_VACCINES = 1000"

record Date =
  day :: int
  month :: int
  year :: int

text \<open>
  Lots and inoculations live on the heap and are shared by several indices; they are
  addressed by \<open>addr\<close>. The chains \<open>next_hash\<close>, \<open>next_vaccine\<close> and
  \<open>next_global\<close> are the lists of addresses they link. \<open>doses\<close>, \<open>dosesUsed\<close>
  and the date fields are C \<open>int\<close>s. Every value read from the input is already in
  the range of \<open>int\<close> (\<open>scan_int\<close>); after that the program only compares them,
  increments \<open>dosesUsed\<close> below \<open>doses\<close> and subtracts fields of dates, so they are
  modelled as \<open>int\<close> (a difference of two years that leaves the range of \<open>int\<close>,
  which C leaves undefined, is not wrapped).
\<close>

type_synonym addr = nat

record VaccineLot =
  lot :: string
  name :: string
  validation :: Date
  doses :: int
  dosesUsed :: int
  isRemoved :: bool

record Inoculation =
  user :: string
  inoc_lot :: string
  date :: Date

text \<open>
  The arrays \<open>lots\<close> and \<open>inoculations\<close> are modelled by their live prefix
  (the first \<open>lotCount\<close>, \<open>inoculationCount\<close> slots); \<open>capacity\<close> only drives
  \<open>realloc\<close>.
\<close>

record VaccineNameIndex =
  vni_name :: string
  lots :: "addr list"

record UserIndex =
  userName :: string
  inoculations :: "addr list"

record Registry =
  lotHeap :: "addr \<Rightarrow> VaccineLot"
  nextLot :: addr
  inocHeap :: "addr \<Rightarrow> Inoculation"
  nextInoc :: addr
  hashTable :: "nat \<Rightarrow> addr list"
  nameHashTable :: "nat \<Rightarrow> VaccineNameIndex list"
  userHashTable :: "nat \<Rightarrow> UserIndex list"
  vaccineList :: "addr list"
  inoculationList :: "addr list"
  vaccineCount :: int
  currentDate :: Date

text \<open>
  \<open>malloc\<close> is assumed to succeed and returns an address never used before
  (\<open>nextLot\<close>, \<open>nextInoc\<close>); \<open>free\<close> leaves the heap function alone, the freed
  address being unlinked from every index first.
\<close>

definition emptyLot :: VaccineLot where
  "emptyLot = \<lparr>lot = [], name = [], validation = \<lparr>day = 0, month = 0, year = 0\<rparr>,
               doses = 0, dosesUsed = 0, isRemoved = False\<rparr>"

definition emptyInoc :: Inoculation where
  "emptyInoc = \<lparr>user = [], inoc_lot = [], date = \<lparr>day = 0, month = 0, year = 0\<rparr>\<rparr>"

text \<open>The state \<open>main\<close> starts from: empty tables and lists, clock 01-01-2025.\<close>

definition initialRegistry :: Registry where
  "initialRegistry =
     \<lparr>lotHeap = (\<lambda>a. emptyLot), nextLot = 0,
      inocHeap = (\<lambda>a. emptyInoc), nextInoc = 0,
      hashTable = (\<lambda>i. []), nameHashTable = (\<lambda>i. []), userHashTable = (\<lambda>i. []),
      vaccineList = [], inoculationList = [], vaccineCount = 0,
      currentDate = \<lparr>day = 1, month = 1, year = 2025\<rparr>\<rparr>"

section \<open>Hashing and lookups (data_structures.c)\<close>

text \<open>
  \<open>hashString\<close>: \<open>unsigned int hash = 5381; hash = ((hash << 5) + hash) + c\<close> with
  \<open>c\<close> the \<open>int\<close> value of a (signed) \<open>char\<close>, reduced modulo the table size.
\<close>

definition char_int :: "char \<Rightarrow> int" where
  "char_int c = (if (of_char c :: nat) < 128 then int (of_char c) else int (of_char c) - 256)"

fun hashLoop :: "32 word \<Rightarrow> string \<Rightarrow> 32 word" where
  "hashLoop h [] = h"
| "hashLoop h (c # cs) = hashLoop ((push_bit 5 h + h) + word_of_int (char_int c)) cs"

definition hashString :: "string \<Rightarrow> nat \<Rightarrow> nat" where
  "hashString str sz = unat (hashLoop 5381 str) mod sz"

definition hashBatch :: "string \<Rightarrow> nat \<Rightarrow> nat" where
  "hashBatch batch sz = unat (hashLoop 5381 batch) mod sz"

definition findVaccineByBatch ::
  "(addr \<Rightarrow> VaccineLot) \<Rightarrow> (nat \<Rightarrow> addr list) \<Rightarrow> string \<Rightarrow> nat \<Rightarrow> addr option" where
  "findVaccineByBatch h tbl batch sz =
     find (\<lambda>a. strcmp (lot (h a)) batch = 0) (tbl (hashString batch sz))"

definition findVaccineByName ::
  "(nat \<Rightarrow> VaccineNameIndex list) \<Rightarrow> string \<Rightarrow> nat \<Rightarrow> VaccineNameIndex option" where
  "findVaccineByName tbl nm sz =
     find (\<lambda>e. strcmp (vni_name e) nm = 0) (tbl (hashString nm sz))"

definition findUserByName ::
  "(nat \<Rightarrow> UserIndex list) \<Rightarrow> string \<Rightarrow> nat \<Rightarrow> UserIndex option" where
  "findUserByName tbl usr sz =
     find (\<lambda>e. strcmp (userName e) usr = 0) (tbl (hashString usr sz))"

text \<open>
  A lookup returns a pointer into the chain; a write through that pointer changes the
  first entry of the chain that the lookup finds.
\<close>

fun updFirst :: "('a \<Rightarrow> bool) \<Rightarrow> ('a \<Rightarrow> 'a) \<Rightarrow> 'a list \<Rightarrow> 'a list" where
  "updFirst P f [] = []"
| "updFirst P f (x # xs) = (if P x then f x # xs else x # updFirst P f xs)"

definition addVaccineLotToHash :: "addr \<Rightarrow> nat \<Rightarrow> Registry \<Rightarrow> Registry" where
  "addVaccineLotToHash a sz s =
     (let index = hashString (lot (lotHeap s a)) sz
      in s\<lparr>hashTable := (hashTable s)(index := a # hashTable s index)\<rparr>)"

definition findOrCreateNameIndexEntry :: "string \<Rightarrow> nat \<Rightarrow> Registry \<Rightarrow> Registry" where
  "findOrCreateNameIndexEntry nm sz s =
     (let index = hashString nm sz
      in case findVaccineByName (nameHashTable s) nm sz of
           Some e \<Rightarrow> s
         | None \<Rightarrow> s\<lparr>nameHashTable := (nameHashTable s)
                        (index := \<lparr>vni_name = nm, lots = []\<rparr> # nameHashTable s index)\<rparr>)"

definition addVaccineLotToNameIndex :: "addr \<Rightarrow> nat \<Rightarrow> Registry \<Rightarrow> Registry" where
  "addVaccineLotToNameIndex a sz s =
     (let nm = name (lotHeap s a);
          s1 = findOrCreateNameIndexEntry nm sz s;
          index = hashString nm sz
      in s1\<lparr>nameHashTable := (nameHashTable s1)
              (index := updFirst (\<lambda>e. strcmp (vni_name e) nm = 0)
                          (\<lambda>e. e\<lparr>lots := lots e @ [a]\<rparr>) (nameHashTable s1 index))\<rparr>)"

definition findOrCreateUserIndexEntry :: "string \<Rightarrow> nat \<Rightarrow> Registry \<Rightarrow> Registry" where
  "findOrCreateUserIndexEntry usr sz s =
     (let index = hashString usr sz
      in case findUserByName (userHashTable s) usr sz of
           Some e \<Rightarrow> s
         | None \<Rightarrow> s\<lparr>userHashTable := (userHashTable s)
                        (index := \<lparr>userName = usr, inoculations = []\<rparr> # userHashTable s index)\<rparr>)"

definition addInoculationToUserIndex :: "addr \<Rightarrow> nat \<Rightarrow> Registry \<Rightarrow> Registry" where
  "addInoculationToUserIndex i sz s =
     (let usr = user (inocHeap s i);
          s1 = findOrCreateUserIndexEntry usr sz s;
          index = hashString usr sz
      in s1\<lparr>userHashTable := (userHashTable s1)
              (index := updFirst (\<lambda>e. strcmp (userName e) usr = 0)
                          (\<lambda>e. e\<lparr>inoculations := inoculations e @ [i]\<rparr>) (userHashTable s1 index))\<rparr>)"

definition compareDates :: "Date \<Rightarrow> Date \<Rightarrow> int" where
  "compareDates a b =
     (if year a \<noteq> year b then year a - year b
      else if month a \<noteq> month b then month a - month b
      else day a - day b)"

section \<open>Validation (utils.c)\<close>

definition isValidBatch :: "string \<Rightarrow> bool" where
  "isValidBatch batch =
     (if length batch > 20 then False
      else list_all (\<lambda>c. isdigit c \<or> (65 \<le> (of_char c :: nat) \<and> (of_char c :: nat) \<le> 70)) batch)"

definition isValidName :: "string \<Rightarrow> bool" where
  "isValidName nm =
     (if length nm > 50 then False else list_all (\<lambda>c. \<not> isspace c) nm)"

definition isMonthValid :: "int \<Rightarrow> bool" where
  "isMonthValid m = (m \<ge> 1 \<and> m \<le> 12)"

definition getDaysInMonth :: "int \<Rightarrow> int \<Rightarrow> int" where
  "getDaysInMonth m y =
     (if m = 2 \<and> (y mod 4 = 0 \<and> (y mod 100 \<noteq> 0 \<or> y mod 400 = 0)) then 29
      else [0, 31, 28, 31, 30, 31, 30, 31, 31, 30, 31, 30, 31] ! nat m)"

definition isDayValid :: "int \<Rightarrow> int \<Rightarrow> int \<Rightarrow> bool" where
  "isDayValid d m y = (d \<ge> 1 \<and> d \<le> getDaysInMonth m y)"

definition isDateNotEarlier :: "Date \<Rightarrow> Date \<Rightarrow> bool" where
  "isDateNotEarlier dt cur =
     (if year dt < year cur then False
      else if year dt = year cur \<and> month dt < month cur then False
      else if year dt = year cur \<and> month dt = month cur \<and> day dt < day cur then False
      else True)"

definition isValidDate :: "Date \<Rightarrow> Date \<Rightarrow> bool" where
  "isValidDate dt cur =
     (if \<not> isMonthValid (month dt) then False
      else if \<not> isDayValid (day dt) (month dt) (year dt) then False
      else if \<not> isDateNotEarlier dt cur then False
      else True)"


section \<open>Messages\<close>

text \<open>
  The Portuguese messages are the bytes of the source files (UTF-8). These are the
  messages of commands c, a, r, d, l and u; command t has its own.
\<close>

definition msgNoMemory :: "bool \<Rightarrow> string" where
  "msgNoMemory pt = (if pt then ''sem mem'' @ [CHR 0xC3, CHR 0xB3] @ ''ria'' else ''No memory'')"

definition msgInvalidBatch :: "bool \<Rightarrow> string" where
  "msgInvalidBatch pt = (if pt then ''lote inv'' @ [CHR 0xC3, CHR 0xA1] @ ''lido'' else ''invalid batch'')"

definition msgInvalidName :: "bool \<Rightarrow> string" where
  "msgInvalidName pt = (if pt then ''nome inv'' @ [CHR 0xC3, CHR 0xA1] @ ''lido'' else ''invalid name'')"

definition msgInvalidDate :: "bool \<Rightarrow> string" where
  "msgInvalidDate pt = (if pt then ''data inv'' @ [CHR 0xC3, CHR 0xA1] @ ''lida'' else ''invalid date'')"

definition msgInvalidQuantity :: "bool \<Rightarrow> string" where
  "msgInvalidQuantity pt =
     (if pt then ''quantidade inv'' @ [CHR 0xC3, CHR 0xA1] @ ''lida'' else ''invalid quantity'')"

definition msgTooMany :: "bool \<Rightarrow> string" where
  "msgTooMany pt = (if pt then ''demasiadas vacinas'' else ''too many vaccines'')"

definition msgDuplicate :: "bool \<Rightarrow> string" where
  "msgDuplicate pt =
     (if pt then ''n'' @ [CHR 0xC3, CHR 0xBA] @ ''mero de lote duplicado''
      else ''duplicate batch number'')"

definition msgInvalidArguments :: "bool \<Rightarrow> string" where
  "msgInvalidArguments pt =
     (if pt then ''argumentos inv'' @ [CHR 0xC3, CHR 0xA1] @ ''lidos'' else ''invalid arguments'')"

definition msgAlreadyVaccinated :: "bool \<Rightarrow> string" where
  "msgAlreadyVaccinated pt =
     (if pt then ''j'' @ [CHR 0xC3, CHR 0xA1] @ '' vacinado'' else ''already vaccinated'')"

definition msgNoStock :: "bool \<Rightarrow> string" where
  "msgNoStock pt = (if pt then ''esgotado'' else ''no stock'')"

definition msgMissingBatch :: "bool \<Rightarrow> string" where
  "msgMissingBatch pt = (if pt then ''lote em falta'' else ''missing batch'')"

definition msgNoSuchBatch :: "bool \<Rightarrow> string \<Rightarrow> string" where
  "msgNoSuchBatch pt b = b @ (if pt then '': lote inexistente'' else '': no such batch'')"

definition msgNoSuchUser :: "bool \<Rightarrow> string \<Rightarrow> string" where
  "msgNoSuchUser pt u = u @ (if pt then '': utente inexistente'' else '': no such user'')"

definition msgNoSuchVaccine :: "bool \<Rightarrow> string \<Rightarrow> string" where
  "msgNoSuchVaccine pt v = v @ (if pt then '': vacina inexistente'' else '': no such vaccine'')"

section \<open>Command c: register a batch (command_c.c)\<close>

text \<open>
  Every command returns the new state and the lines it prints (each without its
  final newline).
\<close>

definition parseArgumentsC :: "string \<Rightarrow> (string \<times> Date \<times> int \<times> string) option" where
  "parseArgumentsC args =
     (case strtok_r args of
        (None, rest1) \<Rightarrow> None
      | (Some batch, rest1) \<Rightarrow>
        (case strtok_r rest1 of
           (None, rest2) \<Rightarrow> None
         | (Some tok2, rest2) \<Rightarrow>
           (case sscanf_date tok2 of
              None \<Rightarrow> None
            | Some (d, m, y) \<Rightarrow>
              (case strtok_r rest2 of
                 (None, rest3) \<Rightarrow> None
               | (Some tok3, rest3) \<Rightarrow>
                 if rest3 = [] then None
                 else Some (batch, \<lparr>day = d, month = m, year = y\<rparr>, atoi tok3, rest3)))))"

definition validateNewVaccine ::
  "string \<Rightarrow> Date \<Rightarrow> int \<Rightarrow> string \<Rightarrow> Date \<Rightarrow> bool \<Rightarrow> string option" where
  "validateNewVaccine batch vdate ds nm cur pt =
     (if \<not> isValidBatch batch then Some (msgInvalidBatch pt)
      else if \<not> isValidName nm then Some (msgInvalidName pt)
      else if \<not> isValidDate vdate cur then Some (msgInvalidDate pt)
      else if ds \<le> 0 then Some (msgInvalidQuantity pt)
      else None)"

definition createVaccineLot :: "string \<Rightarrow> string \<Rightarrow> Date \<Rightarrow> int \<Rightarrow> Registry \<Rightarrow> addr \<times> Registry" where
  "createVaccineLot batch nm vdate ds s =
     (nextLot s,
      s\<lparr>lotHeap := (lotHeap s)(nextLot s :=
            \<lparr>lot = batch, name = nm, validation = vdate, doses = ds,
             dosesUsed = 0, isRemoved = False\<rparr>),
        nextLot := Suc (nextLot s)\<rparr>)"

definition addNewVaccineToSystem ::
  "string \<Rightarrow> string \<Rightarrow> Date \<Rightarrow> int \<Rightarrow> nat \<Rightarrow> int \<Rightarrow> bool \<Rightarrow> Registry \<Rightarrow> Registry \<times> string list" where
  "addNewVaccineToSystem batch nm vdate ds hashSize maxVaccines pt s =
     (if vaccineCount s \<ge> maxVaccines then (s, [msgTooMany pt])
      else if findVaccineByBatch (lotHeap s) (hashTable s) batch hashSize \<noteq> None
        then (s, [msgDuplicate pt])
      else
        (let (newLot, s1) = createVaccineLot batch nm vdate ds s;
             s2 = addVaccineLotToHash newLot hashSize s1;
             s3 = addVaccineLotToNameIndex newLot hashSize s2;
             s4 = s3\<lparr>vaccineList := newLot # vaccineList s3\<rparr>;
             s5 = s4\<lparr>vaccineCount := vaccineCount s4 + 1\<rparr>
         in (s5, [batch])))"

definition commandC ::
  "string \<Rightarrow> nat \<Rightarrow> int \<Rightarrow> Date \<Rightarrow> bool \<Rightarrow> Registry \<Rightarrow> Registry \<times> string list" where
  "commandC args hashSize maxVaccines cur pt s =
     (case parseArgumentsC args of
        None \<Rightarrow> (s, [msgNoMemory pt])
      | Some (batch, vdate, ds, nm) \<Rightarrow>
        (case validateNewVaccine batch vdate ds nm cur pt of
           Some err \<Rightarrow> (s, [err])
         | None \<Rightarrow> addNewVaccineToSystem batch nm vdate ds hashSize maxVaccines pt s))"

section \<open>Command a: administer a dose (command_a.c)\<close>

definition extractQuotedName :: "string \<Rightarrow> (string \<times> string) option" where
  "extractQuotedName args =
     (case strchr (tl args) (CHR 0x22) of
        None \<Rightarrow> None
      | Some endQuote \<Rightarrow> Some (takeWhile (\<lambda>c. c \<noteq> CHR 0x22) (tl args), tl endQuote))"

definition extractUnquotedName :: "string \<Rightarrow> (string \<times> string) option" where
  "extractUnquotedName args =
     (case strchr args (CHR '' '') of
        None \<Rightarrow> None
      | Some space \<Rightarrow> Some (takeWhile (\<lambda>c. c \<noteq> CHR '' '') args, tl space))"

definition extractVaccineName :: "string \<Rightarrow> string option" where
  "extractVaccineName rest =
     (let rest1 = dropWhile isspace rest in if rest1 = [] then None else Some rest1)"

definition extractArguments :: "string \<Rightarrow> (string \<times> string) option" where
  "extractArguments args =
     (case (if args \<noteq> [] \<and> hd args = CHR 0x22 then extractQuotedName args
            else extractUnquotedName args) of
        None \<Rightarrow> None
      | Some (usr, rest) \<Rightarrow>
        (case extractVaccineName rest of None \<Rightarrow> None | Some vac \<Rightarrow> Some (usr, vac)))"

definition inoculationMatches ::
  "(addr \<Rightarrow> VaccineLot) \<Rightarrow> Inoculation \<Rightarrow> Date \<Rightarrow> VaccineNameIndex \<Rightarrow> bool" where
  "inoculationMatches h inoc cur vaccineEntry =
     (if day (date inoc) = day cur \<and> month (date inoc) = month cur \<and> year (date inoc) = year cur
      then list_ex (\<lambda>a. strcmp (inoc_lot inoc) (lot (h a)) = 0) (lots vaccineEntry)
      else False)"

definition isAlreadyVaccinated :: "Registry \<Rightarrow> string \<Rightarrow> string \<Rightarrow> Date \<Rightarrow> nat \<Rightarrow> bool" where
  "isAlreadyVaccinated s usr vac cur hashSize =
     (case findUserByName (userHashTable s) usr hashSize of
        None \<Rightarrow> False
      | Some userEntry \<Rightarrow>
        (case findVaccineByName (nameHashTable s) vac hashSize of
           None \<Rightarrow> False
         | Some vaccineEntry \<Rightarrow>
           list_ex (\<lambda>i. inoculationMatches (lotHeap s) (inocHeap s i) cur vaccineEntry)
             (inoculations userEntry)))"

definition isLotValidAndAvailable :: "VaccineLot \<Rightarrow> Date \<Rightarrow> bool" where
  "isLotValidAndAvailable l cur =
     (\<not> isRemoved l \<and> doses l > dosesUsed l \<and> compareDates (validation l) cur \<ge> 0)"

definition compareVaccines :: "VaccineLot \<Rightarrow> VaccineLot \<Rightarrow> int" where
  "compareVaccines a b =
     (if year (validation a) \<noteq> year (validation b)
        then year (validation a) - year (validation b)
      else if month (validation a) \<noteq> month (validation b)
        then month (validation a) - month (validation b)
      else if day (validation a) \<noteq> day (validation b)
        then day (validation a) - day (validation b)
      else strcmp (lot a) (lot b))"

fun findOldestValidLotFromList ::
  "(addr \<Rightarrow> VaccineLot) \<Rightarrow> addr list \<Rightarrow> Date \<Rightarrow> addr option \<Rightarrow> addr option" where
  "findOldestValidLotFromList h [] cur oldestValidLot = oldestValidLot"
| "findOldestValidLotFromList h (l # ls) cur oldestValidLot =
     findOldestValidLotFromList h ls cur
       (if isLotValidAndAvailable (h l) cur then
          (case oldestValidLot of
             None \<Rightarrow> Some l
           | Some old \<Rightarrow> if compareVaccines (h l) (h old) < 0 then Some l else Some old)
        else oldestValidLot)"

definition findOldestValidLot :: "Registry \<Rightarrow> string \<Rightarrow> Date \<Rightarrow> nat \<Rightarrow> addr option" where
  "findOldestValidLot s vac cur hashSize =
     (case findVaccineByName (nameHashTable s) vac hashSize of
        None \<Rightarrow> None
      | Some vaccineEntry \<Rightarrow>
        if lots vaccineEntry = [] then None
        else findOldestValidLotFromList (lotHeap s) (lots vaccineEntry) cur None)"

definition createInoculation :: "string \<Rightarrow> string \<Rightarrow> Date \<Rightarrow> Registry \<Rightarrow> addr \<times> Registry" where
  "createInoculation usr l dt s =
     (nextInoc s,
      s\<lparr>inocHeap := (inocHeap s)(nextInoc s := \<lparr>user = usr, inoc_lot = l, date = dt\<rparr>),
        nextInoc := Suc (nextInoc s)\<rparr>)"

definition applyVaccine :: "string \<Rightarrow> addr \<Rightarrow> Date \<Rightarrow> Registry \<Rightarrow> Registry \<times> string list" where
  "applyVaccine usr l cur s =
     (let (newInoc, s1) = createInoculation usr (lot (lotHeap s l)) cur s;
          s2 = addInoculationToUserIndex newInoc HASH_SIZE s1;
          s3 = s2\<lparr>inoculationList := newInoc # inoculationList s2\<rparr>;
          s4 = s3\<lparr>lotHeap := (lotHeap s3)
                  (l := (lotHeap s3 l)\<lparr>dosesUsed := dosesUsed (lotHeap s3 l) + 1\<rparr>)\<rparr>
      in (s4, [lot (lotHeap s4 l)]))"

definition processVaccineApplication ::
  "string \<Rightarrow> string \<Rightarrow> nat \<Rightarrow> Date \<Rightarrow> bool \<Rightarrow> Registry \<Rightarrow> Registry \<times> string list" where
  "processVaccineApplication usr vac hashSize cur pt s =
     (if isAlreadyVaccinated s usr vac cur hashSize then (s, [msgAlreadyVaccinated pt])
      else (case findOldestValidLot s vac cur hashSize of
              None \<Rightarrow> (s, [msgNoStock pt])
            | Some l \<Rightarrow> applyVaccine usr l cur s))"

definition commandA :: "string \<Rightarrow> nat \<Rightarrow> Date \<Rightarrow> bool \<Rightarrow> Registry \<Rightarrow> Registry \<times> string list" where
  "commandA args hashSize cur pt s =
     (case extractArguments args of
        None \<Rightarrow> (s, [msgInvalidArguments pt])
      | Some (usr, vac) \<Rightarrow> processVaccineApplication usr vac hashSize cur pt s)"


section \<open>Command r: retire a batch (command_r.c)\<close>

fun removeFirst :: "('a \<Rightarrow> bool) \<Rightarrow> 'a list \<Rightarrow> 'a list" where
  "removeFirst P [] = []"
| "removeFirst P (x # xs) = (if P x then xs else x # removeFirst P xs)"

fun indexOf :: "('a \<Rightarrow> bool) \<Rightarrow> 'a list \<Rightarrow> nat option" where
  "indexOf P [] = None"
| "indexOf P (x # xs) = (if P x then Some 0 else map_option Suc (indexOf P xs))"

text \<open>
  \<open>a[i] = a[count - 1]; count--\<close>: the slot takes the last element and the array
  loses its last slot.
\<close>

definition swapRemove :: "nat \<Rightarrow> 'a list \<Rightarrow> 'a list" where
  "swapRemove i xs = butlast (xs[i := last xs])"

definition removeVaccineFromList :: "string \<Rightarrow> Registry \<Rightarrow> Registry" where
  "removeVaccineFromList batch s =
     s\<lparr>vaccineList := removeFirst (\<lambda>a. strcmp (lot (lotHeap s a)) batch = 0) (vaccineList s)\<rparr>"

definition removeVaccineFromHash :: "string \<Rightarrow> nat \<Rightarrow> Registry \<Rightarrow> Registry" where
  "removeVaccineFromHash batch sz s =
     (let index = hashBatch batch sz
      in s\<lparr>hashTable := (hashTable s)
             (index := removeFirst (\<lambda>a. strcmp (lot (lotHeap s a)) batch = 0) (hashTable s index))\<rparr>)"

definition removeVaccineFromNameIndex :: "string \<Rightarrow> string \<Rightarrow> nat \<Rightarrow> Registry \<Rightarrow> Registry" where
  "removeVaccineFromNameIndex batch vaccineName hashSize s =
     (case findVaccineByName (nameHashTable s) vaccineName hashSize of
        None \<Rightarrow> s
      | Some nameEntry \<Rightarrow>
        (case indexOf (\<lambda>a. strcmp (lot (lotHeap s a)) batch = 0) (lots nameEntry) of
           None \<Rightarrow> s
         | Some i \<Rightarrow>
           s\<lparr>nameHashTable := (nameHashTable s)
               (hashString vaccineName hashSize :=
                  updFirst (\<lambda>e. strcmp (vni_name e) vaccineName = 0)
                    (\<lambda>e. e\<lparr>lots := swapRemove i (lots e)\<rparr>)
                    (nameHashTable s (hashString vaccineName hashSize)))\<rparr>))"

definition handleUnusedVaccineLot :: "string \<Rightarrow> nat \<Rightarrow> Registry \<Rightarrow> Registry" where
  "handleUnusedVaccineLot batch hashSize s =
     (case findVaccineByBatch (lotHeap s) (hashTable s) batch hashSize of
        None \<Rightarrow> s
      | Some l \<Rightarrow>
        (let s1 = removeVaccineFromNameIndex batch (name (lotHeap s l)) hashSize s;
             s2 = removeVaccineFromList batch s1
         in removeVaccineFromHash batch hashSize s2))"

definition handleUsedVaccineLot :: "addr \<Rightarrow> Registry \<Rightarrow> Registry" where
  "handleUsedVaccineLot l s =
     s\<lparr>lotHeap := (lotHeap s)
         (l := (lotHeap s l)\<lparr>isRemoved := True, doses := dosesUsed (lotHeap s l)\<rparr>)\<rparr>"

definition commandR :: "string \<Rightarrow> nat \<Rightarrow> bool \<Rightarrow> Registry \<Rightarrow> Registry \<times> string list" where
  "commandR args hashSize pt s =
     (if args = [] then (s, [msgMissingBatch pt])
      else (case findVaccineByBatch (lotHeap s) (hashTable s) args hashSize of
              None \<Rightarrow> (s, [msgNoSuchBatch pt args])
            | Some l \<Rightarrow>
              (if dosesUsed (lotHeap s l) = 0
                 then handleUnusedVaccineLot args hashSize s
               else handleUsedVaccineLot l s,
               [fmt_d (dosesUsed (lotHeap s l))])))"

section \<open>Command d: revoke inoculations (command_d.c)\<close>

record DeleteArgs =
  da_userName :: string
  da_date :: "Date option"
  da_lotId :: "string option"

definition isDateFormatValid :: "Date \<Rightarrow> bool" where
  "isDateFormatValid dt =
     (if month dt < 1 \<or> month dt > 12 then False
      else
        (let daysInMonth = [0, 31, 28, 31, 30, 31, 30, 31, 31, 30, 31, 30, 31 :: int];
             daysInMonth' =
               (if month dt = 2 \<and>
                   (year dt mod 4 = 0 \<and> (year dt mod 100 \<noteq> 0 \<or> year dt mod 400 = 0))
                then daysInMonth[2 := 29] else daysInMonth)
         in day dt \<ge> 1 \<and> day dt \<le> daysInMonth' ! nat (month dt)))"

definition isDateFuture :: "Date \<Rightarrow> Date \<Rightarrow> bool" where
  "isDateFuture dt cur =
     ((year dt > year cur) \<or>
      (year dt = year cur \<and> month dt > month cur) \<or>
      (year dt = year cur \<and> month dt = month cur \<and> day dt > day cur))"

text \<open>
  The parsers of command d return the parsed value, or the lines printed while
  rejecting the input (\<open>valid = 0\<close>): \<open>Inl\<close> carries those lines.
\<close>

definition parseDateString :: "string \<Rightarrow> Date \<Rightarrow> bool \<Rightarrow> string list + Date" where
  "parseDateString dateStr cur pt =
     (case sscanf_date dateStr of
        None \<Rightarrow> Inl [msgInvalidDate pt]
      | Some (d, m, y) \<Rightarrow>
        (let dt = \<lparr>day = d, month = m, year = y\<rparr>
         in if \<not> isDateFormatValid dt \<or> isDateFuture dt cur then Inl [msgInvalidDate pt]
            else Inr dt))"

definition parseUserName :: "string \<Rightarrow> (string \<times> string) option" where
  "parseUserName args =
     (let ptr = dropWhile isspace args
      in if ptr \<noteq> [] \<and> hd ptr = CHR 0x22 then
           (case strchr (tl ptr) (CHR 0x22) of
              None \<Rightarrow> None
            | Some username_end \<Rightarrow>
                Some (takeWhile (\<lambda>c. c \<noteq> CHR 0x22) (tl ptr), tl username_end))
         else Some (takeWhile (\<lambda>c. \<not> isspace c) ptr,
                    (case dropWhile (\<lambda>c. \<not> isspace c) ptr of [] \<Rightarrow> [] | c # r \<Rightarrow> r)))"

definition skipWhitespace :: "string \<Rightarrow> string" where
  "skipWhitespace ptr = dropWhile isspace ptr"

definition extractDateString :: "string \<Rightarrow> (string \<times> string) option" where
  "extractDateString ptr =
     (let date_str = takeWhile (\<lambda>c. \<not> isspace c) ptr
      in if length date_str \<ge> 32 then None
         else Some (date_str, dropWhile (\<lambda>c. \<not> isspace c) ptr))"

definition extractLotId :: "string \<Rightarrow> string option" where
  "extractLotId ptr = (if ptr \<noteq> [] then Some ptr else None)"

definition parseDateAndLotId ::
  "string \<Rightarrow> string \<Rightarrow> Date \<Rightarrow> bool \<Rightarrow> string list + DeleteArgs" where
  "parseDateAndLotId ptr usr cur pt =
     (let ptr1 = skipWhitespace ptr
      in if ptr1 \<noteq> [] then
           (case extractDateString ptr1 of
              None \<Rightarrow> Inl []
            | Some (date_str, ptr2) \<Rightarrow>
              (case parseDateString date_str cur pt of
                 Inl out \<Rightarrow> Inl out
               | Inr dt \<Rightarrow>
                   Inr \<lparr>da_userName = usr, da_date = Some dt,
                        da_lotId = extractLotId (skipWhitespace ptr2)\<rparr>))
         else Inr \<lparr>da_userName = usr, da_date = None, da_lotId = None\<rparr>)"

definition processDeleteArgs :: "string \<Rightarrow> Date \<Rightarrow> bool \<Rightarrow> string list + DeleteArgs" where
  "processDeleteArgs args cur pt =
     (case parseUserName args of
        None \<Rightarrow> Inl []
      | Some (usr, ptr) \<Rightarrow> parseDateAndLotId ptr usr cur pt)"

definition datesEqual :: "Date \<Rightarrow> Date \<Rightarrow> bool" where
  "datesEqual a b = (day a = day b \<and> month a = month b \<and> year a = year b)"

definition inoculationMatchesCriteria :: "Inoculation \<Rightarrow> DeleteArgs \<Rightarrow> bool" where
  "inoculationMatchesCriteria inoc args =
     (if strcmp (user inoc) (da_userName args) \<noteq> 0 then False
      else (case da_date args of
              None \<Rightarrow> True
            | Some dt \<Rightarrow>
              if \<not> datesEqual (date inoc) dt then False
              else (case da_lotId args of
                      None \<Rightarrow> True
                    | Some l \<Rightarrow> strcmp (inoc_lot inoc) l = 0)))"

definition removeInoculationFromUser :: "addr list \<Rightarrow> addr \<Rightarrow> addr list" where
  "removeInoculationFromUser inocs toRemove =
     (case indexOf (\<lambda>x. x = toRemove) inocs of
        None \<Rightarrow> inocs
      | Some i \<Rightarrow> swapRemove i inocs)"

text \<open>
  The walk over the global list: the entries kept (in order), the user's array after the
  removals, and the count.
\<close>

fun removeMatchingLoop ::
  "(addr \<Rightarrow> Inoculation) \<Rightarrow> DeleteArgs \<Rightarrow> addr list \<Rightarrow> addr list \<Rightarrow> addr list \<times> addr list \<times> int" where
  "removeMatchingLoop h args [] userInocs = ([], userInocs, 0)"
| "removeMatchingLoop h args (c # nxt) userInocs =
     (if inoculationMatchesCriteria (h c) args then
        (case removeMatchingLoop h args nxt (removeInoculationFromUser userInocs c) of
           (glob, ui, n) \<Rightarrow> (glob, ui, n + 1))
      else
        (case removeMatchingLoop h args nxt userInocs of
           (glob, ui, n) \<Rightarrow> (c # glob, ui, n)))"

definition removeMatchingInoculations :: "DeleteArgs \<Rightarrow> nat \<Rightarrow> Registry \<Rightarrow> Registry \<times> int" where
  "removeMatchingInoculations args hashSize s =
     (case findUserByName (userHashTable s) (da_userName args) hashSize of
        None \<Rightarrow> (s, 0)
      | Some userEntry \<Rightarrow>
        (case removeMatchingLoop (inocHeap s) args (inoculationList s) (inoculations userEntry) of
           (glob, ui, n) \<Rightarrow>
             (s\<lparr>inoculationList := glob,
                userHashTable := (userHashTable s)
                  (hashString (da_userName args) hashSize :=
                     updFirst (\<lambda>e. strcmp (userName e) (da_userName args) = 0)
                       (\<lambda>e. e\<lparr>inoculations := ui\<rparr>)
                       (userHashTable s (hashString (da_userName args) hashSize)))\<rparr>, n)))"

definition validateUser :: "UserIndex option \<Rightarrow> DeleteArgs \<Rightarrow> bool \<Rightarrow> string option" where
  "validateUser userEntry deleteArgs pt =
     (case userEntry of
        None \<Rightarrow> Some (msgNoSuchUser pt (da_userName deleteArgs))
      | Some e \<Rightarrow>
        if inoculations e = [] then Some (msgNoSuchUser pt (da_userName deleteArgs)) else None)"

definition validateLot :: "DeleteArgs \<Rightarrow> nat \<Rightarrow> bool \<Rightarrow> Registry \<Rightarrow> string option" where
  "validateLot deleteArgs hashSize pt s =
     (case da_lotId deleteArgs of
        None \<Rightarrow> None
      | Some l \<Rightarrow>
        if findVaccineByBatch (lotHeap s) (hashTable s) l hashSize = None
        then Some (msgNoSuchBatch pt l) else None)"

definition commandD :: "string \<Rightarrow> nat \<Rightarrow> Date \<Rightarrow> bool \<Rightarrow> Registry \<Rightarrow> Registry \<times> string list" where
  "commandD args hashSize cur pt s =
     (case processDeleteArgs args cur pt of
        Inl out \<Rightarrow> (s, out)
      | Inr deleteArgs \<Rightarrow>
        (case validateUser (findUserByName (userHashTable s) (da_userName deleteArgs) hashSize)
                deleteArgs pt of
           Some err \<Rightarrow> (s, [err])
         | None \<Rightarrow>
           (case validateLot deleteArgs hashSize pt s of
              Some err \<Rightarrow> (s, [err])
            | None \<Rightarrow>
              (case removeMatchingInoculations deleteArgs hashSize s of
                 (s', removed) \<Rightarrow> (s', [fmt_d removed])))))"


section \<open>Command l: list batches (command_l.c)\<close>

definition fmtDate :: "Date \<Rightarrow> string" where
  "fmtDate dt = fmt_02d (day dt) @ ''-'' @ fmt_02d (month dt) @ ''-'' @ fmt_d (year dt)"

definition printVaccine :: "VaccineLot \<Rightarrow> string" where
  "printVaccine v =
     name v @ '' '' @ lot v @ '' '' @ fmtDate (validation v) @ '' '' @
     fmt_d (doses v - dosesUsed v) @ '' '' @ fmt_d (dosesUsed v)"

text \<open>
  The sort works on an array of lot pointers with \<open>int\<close> indices. No index leaves
  \<open>low..high\<close> in a read or a write.
\<close>

definition swapVaccines :: "addr list \<Rightarrow> int \<Rightarrow> int \<Rightarrow> addr list" where
  "swapVaccines array a b = (array[nat a := array ! nat b])[nat b := array ! nat a]"

function partitionLoop ::
  "(addr \<Rightarrow> VaccineLot) \<Rightarrow> addr \<Rightarrow> int \<Rightarrow> addr list \<Rightarrow> int \<Rightarrow> int \<Rightarrow> addr list \<times> int" where
  "partitionLoop h pivot high array i j =
     (if j \<le> high - 1 then
        (if compareVaccines (h (array ! nat j)) (h pivot) \<le> 0
         then partitionLoop h pivot high (swapVaccines array (i + 1) j) (i + 1) (j + 1)
         else partitionLoop h pivot high array i (j + 1))
      else (array, i))"
  by pat_completeness auto
termination
  by (relation "measure (\<lambda>(h, pivot, high, array, i, j). nat (high - j))") auto

declare partitionLoop.simps [simp del]

definition partition :: "(addr \<Rightarrow> VaccineLot) \<Rightarrow> addr list \<Rightarrow> int \<Rightarrow> int \<Rightarrow> addr list \<times> int" where
  "partition h array low high =
     (case partitionLoop h (array ! nat high) high array (low - 1) low of
        (array', i) \<Rightarrow> (swapVaccines array' (i + 1) high, i + 1))"

function insertionInner ::
  "(addr \<Rightarrow> VaccineLot) \<Rightarrow> addr \<Rightarrow> int \<Rightarrow> addr list \<Rightarrow> int \<Rightarrow> addr list \<times> int" where
  "insertionInner h key low array j =
     (if j \<ge> low \<and> compareVaccines (h (array ! nat j)) (h key) > 0
      then insertionInner h key low (array[nat (j + 1) := array ! nat j]) (j - 1)
      else (array, j))"
  by pat_completeness auto
termination
  by (relation "measure (\<lambda>(h, key, low, array, j). nat (j - low + 1))") auto

declare insertionInner.simps [simp del]

function insertionOuter ::
  "(addr \<Rightarrow> VaccineLot) \<Rightarrow> int \<Rightarrow> int \<Rightarrow> addr list \<Rightarrow> int \<Rightarrow> addr list" where
  "insertionOuter h low high array i =
     (if i \<le> high then
        (case insertionInner h (array ! nat i) low array (i - 1) of
           (array', j) \<Rightarrow>
             insertionOuter h low high (array'[nat (j + 1) := array ! nat i]) (i + 1))
      else array)"
  by pat_completeness auto
termination
  by (relation "measure (\<lambda>(h, low, high, array, i). nat (high + 1 - i))") auto

declare insertionOuter.simps [simp del]

definition insertionSort :: "(addr \<Rightarrow> VaccineLot) \<Rightarrow> addr list \<Rightarrow> int \<Rightarrow> int \<Rightarrow> addr list" where
  "insertionSort h array low high = insertionOuter h low high array (low + 1)"


text \<open>The pivot index returned by \<open>partition\<close> stays inside \<open>low..high\<close>.\<close>

lemma partitionLoop_bounds:
  "partitionLoop h pivot high array i j = (array', i') \<Longrightarrow> j \<le> high \<Longrightarrow>
     i \<le> i' \<and> i' \<le> i + (high - j)"
proof (induction h pivot high array i j arbitrary: array' i' rule: partitionLoop.induct)
  case (1 h pivot high array i j)
  show ?case
  proof (cases "j \<le> high - 1")
    case True
    show ?thesis
    proof (cases "compareVaccines (h (array ! nat j)) (h pivot) \<le> 0")
      case c: True
      from "1.prems" True c have
        "partitionLoop h pivot high (swapVaccines array (i + 1) j) (i + 1) (j + 1) = (array', i')"
        by (simp add: partitionLoop.simps[of h pivot high array i j])
      from "1.IH"(1)[OF True c this] True show ?thesis by simp
    next
      case c: False
      from "1.prems" True c have
        "partitionLoop h pivot high array i (j + 1) = (array', i')"
        by (simp add: partitionLoop.simps[of h pivot high array i j])
      from "1.IH"(2)[OF True c this] True show ?thesis by simp
    qed
  next
    case False
    with "1.prems" show ?thesis by (simp add: partitionLoop.simps[of h pivot high array i j])
  qed
qed

lemma partition_bounds:
  "partition h array low high = (array1, p) \<Longrightarrow> low \<le> high \<Longrightarrow> low \<le> p \<and> p \<le> high"
  by (auto simp: partition_def split: prod.splits dest!: partitionLoop_bounds)

function quickSort :: "(addr \<Rightarrow> VaccineLot) \<Rightarrow> addr list \<Rightarrow> int \<Rightarrow> int \<Rightarrow> addr list" where
  "quickSort h array low high =
     (if low < high then
        (if high - low < 10 then insertionSort h array low high
         else (case partition h array low high of
                 (array1, pi) \<Rightarrow>
                   quickSort h (quickSort h array1 low (pi - 1)) (pi + 1) high))
      else array)"
  by pat_completeness auto
termination
  apply (relation "measure (\<lambda>(h, array, low, high). nat (high - low))")
    apply simp
  subgoal by (auto dest!: partition_bounds[OF sym])
  subgoal by (auto dest!: partition_bounds[OF sym])
  done

declare quickSort.simps [simp del]

definition printAllVaccines :: "(addr \<Rightarrow> VaccineLot) \<Rightarrow> addr list \<Rightarrow> string list" where
  "printAllVaccines h vaccineArray = map (\<lambda>a. printVaccine (h a)) vaccineArray"

definition listAllVaccines :: "Registry \<Rightarrow> string list" where
  "listAllVaccines s =
     (let count = int (length (vaccineList s))
      in if count = 0 then []
         else printAllVaccines (lotHeap s) (quickSort (lotHeap s) (vaccineList s) 0 (count - 1)))"

definition printVaccineLots :: "(addr \<Rightarrow> VaccineLot) \<Rightarrow> VaccineNameIndex \<Rightarrow> string list" where
  "printVaccineLots h nameEntry = map (\<lambda>a. printVaccine (h a)) (lots nameEntry)"

text \<open>
  \<open>listVaccinesByName\<close> copies the group into \<open>validLots\<close>, sorts the copy, and
  prints through \<open>nameEntry\<close>; the copy is then freed.
\<close>

definition listVaccinesByName :: "Registry \<Rightarrow> string \<Rightarrow> nat \<Rightarrow> bool \<Rightarrow> string list" where
  "listVaccinesByName s vaccineName hashSize pt =
     (case findVaccineByName (nameHashTable s) vaccineName hashSize of
        None \<Rightarrow> [msgNoSuchVaccine pt vaccineName]
      | Some nameEntry \<Rightarrow>
        if lots nameEntry = [] then [msgNoSuchVaccine pt vaccineName]
        else (let validCount = int (length (lots nameEntry));
                  validLots = quickSort (lotHeap s) (lots nameEntry) 0 (validCount - 1)
              in printVaccineLots (lotHeap s) nameEntry))"

text \<open>The tokens \<open>strtok(args, " \t")\<close> yields, call after call.\<close>

definition isSpaceOrTab :: "char \<Rightarrow> bool" where
  "isSpaceOrTab c = (c = CHR '' '' \<or> c = CHR 0x09)"

function strtokAll :: "string \<Rightarrow> string list" where
  "strtokAll s =
     (let s1 = dropWhile isSpaceOrTab s
      in if s1 = [] then []
         else takeWhile (\<lambda>c. \<not> isSpaceOrTab c) s1 # strtokAll (dropWhile (\<lambda>c. \<not> isSpaceOrTab c) s1))"
  by pat_completeness auto
termination
proof (relation "measure length", simp, goal_cases)
  case (1 s x)
  then have ne: "x \<noteq> []" and c: "\<not> isSpaceOrTab (hd x)"
    using hd_dropWhile[of isSpaceOrTab s] by auto
  then obtain a as where x: "x = a # as" by (cases x) auto
  have "length (dropWhile (\<lambda>c. \<not> isSpaceOrTab c) x) \<le> length as"
    using x c by (simp add: length_dropWhile_le)
  also have "\<dots> < length x" using x by simp
  also have "\<dots> \<le> length s" using 1 by (simp add: length_dropWhile_le)
  finally show ?case by simp
qed

declare strtokAll.simps [simp del]

definition processSpecificVaccines :: "string \<Rightarrow> nat \<Rightarrow> bool \<Rightarrow> Registry \<Rightarrow> string list" where
  "processSpecificVaccines args hashSize pt s =
     concat (map (\<lambda>token. listVaccinesByName s token hashSize pt) (strtokAll args))"

definition commandL :: "string \<Rightarrow> nat \<Rightarrow> bool \<Rightarrow> Registry \<Rightarrow> string list" where
  "commandL args hashSize pt s =
     (if args = [] then listAllVaccines s else processSpecificVaccines args hashSize pt s)"

section \<open>Command u: list inoculations (command_u.c)\<close>

definition SIZE_COMMAND :: nat where "SIZE_COMMAND = 65535"

definition printInoculation :: "Inoculation \<Rightarrow> string" where
  "printInoculation inoc = user inoc @ '' '' @ inoc_lot inoc @ '' '' @ fmtDate (date inoc)"

definition extractUserName :: "string \<Rightarrow> string option" where
  "extractUserName args =
     (if args = [] then None
      else if hd args = CHR 0x22 then
        (case strchr (tl args) (CHR 0x22) of
           None \<Rightarrow> None
         | Some endQuote \<Rightarrow>
           (let nm = takeWhile (\<lambda>c. c \<noteq> CHR 0x22) (tl args)
            in if length nm \<ge> SIZE_COMMAND then None else Some nm))
      else if length args \<ge> SIZE_COMMAND then None else Some args)"

definition listAllInoculations :: "Registry \<Rightarrow> string list" where
  "listAllInoculations s = map (\<lambda>i. printInoculation (inocHeap s i)) (rev (inoculationList s))"

definition listInoculationsByUser :: "string \<Rightarrow> nat \<Rightarrow> bool \<Rightarrow> Registry \<Rightarrow> string list" where
  "listInoculationsByUser usr hashSize pt s =
     (case findUserByName (userHashTable s) usr hashSize of
        None \<Rightarrow> [msgNoSuchUser pt usr]
      | Some userEntry \<Rightarrow>
        if inoculations userEntry = [] then [msgNoSuchUser pt usr]
        else map (\<lambda>i. printInoculation (inocHeap s i)) (inoculations userEntry))"

definition commandU :: "string \<Rightarrow> nat \<Rightarrow> bool \<Rightarrow> Registry \<Rightarrow> string list" where
  "commandU args hashSize pt s =
     (case extractUserName args of
        None \<Rightarrow> listAllInoculations s
      | Some usr \<Rightarrow> listInoculationsByUser usr hashSize pt s)"

section \<open>Command t: the clock (command_t.c)\<close>

definition parseDate :: "string \<Rightarrow> Date option" where
  "parseDate dateStr =
     (case sscanf_date dateStr of
        None \<Rightarrow> None
      | Some (d, m, y) \<Rightarrow> Some \<lparr>day = d, month = m, year = y\<rparr>)"

definition printCurrentDate :: "Date \<Rightarrow> string" where
  "printCurrentDate cur = fmt_02d (day cur) @ ''-'' @ fmt_02d (month cur) @ ''-'' @ fmt_d (year cur)"

text \<open>
  \<open>isDateFormatValid\<close> of command_t.c has the body of the one in command_d.c. The
  Portuguese literal of \<open>printInvalidDateMessage\<close> is stored in the source file
  encoded twice: its accented letter is the four bytes C3 83 C2 A1.
\<close>

definition printInvalidDateMessage :: "bool \<Rightarrow> string" where
  "printInvalidDateMessage pt =
     (if pt then ''data inv'' @ [CHR 0xC3, CHR 0x83, CHR 0xC2, CHR 0xA1] @ ''lida''
      else ''invalid date'')"

definition commandT :: "string \<Rightarrow> bool \<Rightarrow> Registry \<Rightarrow> Registry \<times> string list" where
  "commandT args pt s =
     (if args = [] then (s, [printCurrentDate (currentDate s)])
      else (case parseDate args of
              None \<Rightarrow> (s, [printInvalidDateMessage pt])
            | Some newDate \<Rightarrow>
              if \<not> isDateFormatValid newDate then (s, [printInvalidDateMessage pt])
              else if compareDates (currentDate s) newDate > 0
                then (s, [printInvalidDateMessage pt])
              else (s\<lparr>currentDate := newDate\<rparr>, [printCurrentDate newDate])))"

section \<open>Dispatch and the command loop (commands.c, project.c)\<close>

definition handleCommand :: "char \<Rightarrow> string \<Rightarrow> bool \<Rightarrow> Registry \<Rightarrow> Registry \<times> string list" where
  "handleCommand cmd args pt s =
     (if cmd = CHR ''c'' then commandC args HASH_SIZE MAX_VACCINES (currentDate s) pt s
      else if cmd = CHR ''l'' then (s, commandL args HASH_SIZE pt s)
      else if cmd = CHR ''t'' then commandT args pt s
      else if cmd = CHR ''a'' then commandA args HASH_SIZE (currentDate s) pt s
      else if cmd = CHR ''u'' then (s, commandU args HASH_SIZE pt s)
      else if cmd = CHR ''r'' then commandR args HASH_SIZE pt s
      else if cmd = CHR ''d'' then commandD args HASH_SIZE (currentDate s) pt s
      else (s, []))"

text \<open>
  \<open>processCommands\<close> runs the input lines (each already without its newline, and
  shorter than \<open>SIZE_COMMAND\<close>) until the input ends or a line starts with \<open>q\<close>.
\<close>

fun processCommands :: "bool \<Rightarrow> string list \<Rightarrow> Registry \<Rightarrow> Registry \<times> string list" where
  "processCommands pt [] s = (s, [])"
| "processCommands pt (command # more_lines) s =
     (if command = [] then processCommands pt more_lines s
      else if hd command = CHR ''q'' then (s, [])
      else (case handleCommand (hd command) (dropWhile isspace (tl command)) pt s of
              (s1, out1) \<Rightarrow>
                (case processCommands pt more_lines s1 of
                   (s2, out2) \<Rightarrow> (s2, out1 @ out2))))"


section \<open>Notions of the specification\<close>

text \<open>The BatchStore: everything command r and the listings of batches read.\<close>

definition batchStore ::
  "Registry \<Rightarrow> (addr \<Rightarrow> VaccineLot) \<times> (nat \<Rightarrow> addr list) \<times> (nat \<Rightarrow> VaccineNameIndex list) \<times>
     addr list \<times> int \<times> addr" where
  "batchStore s =
     (lotHeap s, hashTable s, nameHashTable s, vaccineList s, vaccineCount s, nextLot s)"

text \<open>Some states the program reaches, named for the examples below.\<close>

definition stateOneDoseUsed :: Registry where
  "stateOneDoseUsed =
     fst (processCommands False [''c A1 01-06-2025 10 V1'', ''a Alice V1''] initialRegistry)"

definition stateOneBatch :: Registry where
  "stateOneBatch = fst (processCommands False [''c A1 01-06-2025 10 V1''] initialRegistry)"

definition stateTwoBatches :: Registry where
  "stateTwoBatches =
     fst (processCommands False [''c B2 01-07-2025 10 V1'', ''c B1 01-06-2025 10 V1'']
            initialRegistry)"

text \<open>
  The shape of an argument line of command c: tokens separated by runs of spaces.
\<close>

definition isSpaces :: "string \<Rightarrow> bool" where
  "isSpaces xs = list_all (\<lambda>c. c = CHR '' '') xs"

definition isToken :: "string \<Rightarrow> bool" where
  "isToken w = (w \<noteq> [] \<and> list_all (\<lambda>c. c \<noteq> CHR '' '') w)"

definition noSpace :: "string \<Rightarrow> bool" where
  "noSpace w = list_all (\<lambda>c. \<not> isspace c) w"

definition allSpace :: "string \<Rightarrow> bool" where
  "allSpace w = list_all isspace w"

text \<open>
  The shapes of an argument line of command d that carries a date token: an unquoted or
  a quoted user name, white space, the date token, and either nothing or white space and
  more text. \<open>invalidDateToken\<close>: the token does not read as three numbers
  separated by hyphens, or the date read (each field as \<open>sscanf\<close> stores it) is
  not on the calendar or is after the clock date.
\<close>

definition unquotedUserThenDate :: "string \<Rightarrow> string \<Rightarrow> string \<Rightarrow> string \<Rightarrow> string \<Rightarrow> bool" where
  "unquotedUserThenDate args usr ws dateTok more_text =
     (args = usr @ ws @ dateTok @ more_text \<and>
      usr \<noteq> [] \<and> noSpace usr \<and> hd usr \<noteq> CHR 0x22 \<and>
      ws \<noteq> [] \<and> allSpace ws \<and>
      dateTok \<noteq> [] \<and> noSpace dateTok \<and>
      (more_text = [] \<or> isspace (hd more_text)))"

definition quotedUserThenDate :: "string \<Rightarrow> string \<Rightarrow> string \<Rightarrow> string \<Rightarrow> string \<Rightarrow> bool" where
  "quotedUserThenDate args usr ws dateTok more_text =
     (args = CHR 0x22 # usr @ CHR 0x22 # ws @ dateTok @ more_text \<and>
      list_all (\<lambda>c. c \<noteq> CHR 0x22) usr \<and>
      allSpace ws \<and>
      dateTok \<noteq> [] \<and> noSpace dateTok \<and>
      (more_text = [] \<or> isspace (hd more_text)))"

definition invalidDateToken :: "string \<Rightarrow> Date \<Rightarrow> bool" where
  "invalidDateToken dateTok cur =
     (case parseDate dateTok of
        None \<Rightarrow> True
      | Some dt \<Rightarrow> \<not> isDateFormatValid dt \<or> isDateFuture dt cur)"

definition stateThreeDoses :: Registry where
  "stateThreeDoses =
     fst (processCommands False
       [''c A1 01-06-2025 10 V1'', ''c A2 01-06-2025 10 V2'', ''c A3 01-06-2025 10 V3'',
        ''a Alice V1'', ''t 02-01-2025'', ''a Alice V2'', ''a Alice V3''] initialRegistry)"

text \<open>
  The order of the specification: validity date ascending (year, month, day), then the
  batch id in lexicographic order of its bytes.
\<close>

definition dateKey :: "Date \<Rightarrow> int \<times> int \<times> int" where
  "dateKey d = (year d, month d, day d)"

definition batchKey :: "VaccineLot \<Rightarrow> (int \<times> int \<times> int) \<times> string" where
  "batchKey l = (dateKey (validation l), lot l)"

text \<open>
  A batch is eligible on a clock date when it is not frozen, has doses left and has not
  expired. \<open>nameGroup\<close> is the array of the NameGroup of a vaccine name (empty when
  the name has no group).
\<close>

definition eligible :: "VaccineLot \<Rightarrow> Date \<Rightarrow> bool" where
  "eligible l cur = (\<not> isRemoved l \<and> dosesUsed l < doses l \<and> dateKey cur \<le> dateKey (validation l))"

definition nameGroup :: "Registry \<Rightarrow> string \<Rightarrow> nat \<Rightarrow> addr list" where
  "nameGroup s vac hs =
     (case findVaccineByName (nameHashTable s) vac hs of None \<Rightarrow> [] | Some e \<Rightarrow> lots e)"

definition eligibleBatches :: "Registry \<Rightarrow> string \<Rightarrow> Date \<Rightarrow> nat \<Rightarrow> addr list" where
  "eligibleBatches s vac cur hs = filter (\<lambda>a. eligible (lotHeap s a) cur) (nameGroup s vac hs)"

text \<open>Alice has taken the only dose of batch A1, today.\<close>

definition stateBatchExhausted :: Registry where
  "stateBatchExhausted =
     fst (processCommands False [''c A1 01-06-2025 1 V1'', ''a Alice V1''] initialRegistry)"

text \<open>
  Cross-index consistency. The live lots are those linked in the id index. Within a
  bucket the ids are distinct, every lot sits in the bucket of its id and was allocated;
  the global list holds exactly the live lots, once each; the name entries of a bucket
  have distinct names and sit in the bucket of their name, and a group holds live lots
  of its name, once each; every live lot is in the group of its name.
\<close>

definition lotId :: "Registry \<Rightarrow> addr \<Rightarrow> string" where
  "lotId s a = lot (lotHeap s a)"

definition lotName :: "Registry \<Rightarrow> addr \<Rightarrow> string" where
  "lotName s a = name (lotHeap s a)"

definition live :: "Registry \<Rightarrow> addr set" where
  "live s = (\<Union>i. set (hashTable s i))"

definition idsDistinct :: "Registry \<Rightarrow> bool" where
  "idsDistinct s = (\<forall>i. distinct (map (lotId s) (hashTable s i)))"

definition bucketsOk :: "Registry \<Rightarrow> bool" where
  "bucketsOk s =
     (\<forall>i. \<forall>a\<in>set (hashTable s i). hashString (lotId s a) HASH_SIZE = i \<and> a < nextLot s)"

definition listOk :: "Registry \<Rightarrow> bool" where
  "listOk s = (distinct (vaccineList s) \<and> set (vaccineList s) = live s)"

definition namesOk :: "Registry \<Rightarrow> bool" where
  "namesOk s =
     (\<forall>i. distinct (map vni_name (nameHashTable s i)) \<and>
          (\<forall>e\<in>set (nameHashTable s i).
             hashString (vni_name e) HASH_SIZE = i \<and> distinct (lots e) \<and>
             (\<forall>a\<in>set (lots e). lotName s a = vni_name e \<and> a \<in> live s)))"

definition groupsCover :: "Registry \<Rightarrow> bool" where
  "groupsCover s =
     (\<forall>a\<in>live s. \<exists>e\<in>set (nameHashTable s (hashString (lotName s a) HASH_SIZE)).
        vni_name e = lotName s a \<and> a \<in> set (lots e))"

definition indexConsistent :: "Registry \<Rightarrow> bool" where
  "indexConsistent s = (idsDistinct s \<and> bucketsOk s \<and> listOk s \<and> namesOk s \<and> groupsCover s)"

text \<open>The chain of a name bucket after \<open>findOrCreateNameIndexEntry\<close>.\<close>

definition withEntry :: "string \<Rightarrow> VaccineNameIndex list \<Rightarrow> VaccineNameIndex list" where
  "withEntry nm chain =
     (if nm \<in> vni_name ` set chain then chain else \<lparr>vni_name = nm, lots = []\<rparr> # chain)"

text \<open>A lot that command r has frozen: flagged, with no dose left, at an allocated address.\<close>

definition frozenLot :: "Registry \<Rightarrow> addr \<Rightarrow> bool" where
  "frozenLot s l =
     (isRemoved (lotHeap s l) \<and> doses (lotHeap s l) = dosesUsed (lotHeap s l) \<and> l < nextLot s)"

text \<open>The array that \<open>listAllVaccines\<close> prints, after the sort.\<close>

definition listedAll :: "Registry \<Rightarrow> addr list" where
  "listedAll s = quickSort (lotHeap s) (vaccineList s) 0 (int (length (vaccineList s)) - 1)"

text \<open>
  The user has an inoculation dated \<open>cur\<close> from a batch, found by its id, that
  carries the vaccine name \<open>vac\<close>.
\<close>

definition vaccinatedOn :: "Registry \<Rightarrow> string \<Rightarrow> string \<Rightarrow> Date \<Rightarrow> nat \<Rightarrow> bool" where
  "vaccinatedOn s usr vac cur hs =
     (case findUserByName (userHashTable s) usr hs of
        None \<Rightarrow> False
      | Some userEntry \<Rightarrow>
          list_ex (\<lambda>i. date (inocHeap s i) = cur \<and>
                     (case findVaccineByBatch (lotHeap s) (hashTable s) (inoc_lot (inocHeap s i)) hs of
                        None \<Rightarrow> False
                      | Some a \<Rightarrow> name (lotHeap s a) = vac))
            (inoculations userEntry))"

text \<open>
  Two batches of V1; Alice has taken the only dose of B1 today, B2 is untouched.
\<close>

definition stateGuardByName :: Registry where
  "stateGuardByName =
     fst (processCommands False
       [''c B1 01-06-2025 1 V1'', ''c B2 01-07-2025 10 V1'', ''a Alice V1''] initialRegistry)"



section \<open>Evaluating the program on concrete inputs\<close>

text \<open>The defining equations, for running the commands on concrete command lines.\<close>

lemmas run_defs =
  isspace_def isdigit_def strtol_clamp_def int_of_long_def scan_int_def atoi_def sscanf_date_def strtok_r_def digit_char_def
  fmt_d_def fmt_02d_def
  HASH_SIZE_def MAX_VACCINES_def initialRegistry_def char_int_def hashString_def hashBatch_def
  findVaccineByBatch_def findVaccineByName_def findUserByName_def addVaccineLotToHash_def
  findOrCreateNameIndexEntry_def addVaccineLotToNameIndex_def findOrCreateUserIndexEntry_def
  addInoculationToUserIndex_def compareDates_def isValidBatch_def isValidName_def isMonthValid_def
  getDaysInMonth_def isDayValid_def isDateNotEarlier_def isValidDate_def
  msgNoMemory_def msgInvalidBatch_def msgInvalidName_def msgInvalidDate_def msgInvalidQuantity_def
  msgTooMany_def msgDuplicate_def msgInvalidArguments_def msgAlreadyVaccinated_def msgNoStock_def
  msgMissingBatch_def msgNoSuchBatch_def msgNoSuchUser_def msgNoSuchVaccine_def
  parseArgumentsC_def validateNewVaccine_def createVaccineLot_def addNewVaccineToSystem_def
  commandC_def extractQuotedName_def extractUnquotedName_def extractVaccineName_def
  extractArguments_def inoculationMatches_def isAlreadyVaccinated_def isLotValidAndAvailable_def
  compareVaccines_def findOldestValidLot_def createInoculation_def applyVaccine_def
  processVaccineApplication_def commandA_def swapRemove_def removeVaccineFromList_def
  removeVaccineFromHash_def removeVaccineFromNameIndex_def handleUnusedVaccineLot_def
  handleUsedVaccineLot_def commandR_def isDateFormatValid_def isDateFuture_def parseDateString_def
  parseUserName_def skipWhitespace_def extractDateString_def extractLotId_def parseDateAndLotId_def
  processDeleteArgs_def datesEqual_def inoculationMatchesCriteria_def removeInoculationFromUser_def
  removeMatchingInoculations_def validateUser_def validateLot_def commandD_def fmtDate_def
  printVaccine_def swapVaccines_def partition_def insertionSort_def printAllVaccines_def
  listAllVaccines_def printVaccineLots_def listVaccinesByName_def isSpaceOrTab_def
  processSpecificVaccines_def commandL_def SIZE_COMMAND_def printInoculation_def extractUserName_def
  listAllInoculations_def listInoculationsByUser_def commandU_def parseDate_def printCurrentDate_def
  printInvalidDateMessage_def commandT_def handleCommand_def Let_def
  nat_digits.simps partitionLoop.simps insertionInner.simps insertionOuter.simps quickSort.simps
  strtokAll.simps

text \<open>The named states, computed once.\<close>

lemma stateOneBatch_eq:
  "stateOneBatch =
     \<lparr>lotHeap =
     (\<lambda>a. emptyLot)
     (0 := \<lparr>lot = ''A1'', name = ''V1'',
     validation = \<lparr>day = 1, month = 6, year = 2025\<rparr>, doses = 10,
     dosesUsed = 0, isRemoved = False\<rparr>),
     nextLot = Suc 0, inocHeap = (\<lambda>a. emptyInoc), nextInoc = 0,
     hashTable = (\<lambda>i. [])(822 := [0]),
     nameHashTable = (\<lambda>i. [])(506 := [\<lparr>vni_name = ''V1'', lots = [0]\<rparr>]),
     userHashTable = (\<lambda>i. []), vaccineList = [0], inoculationList = [],
     vaccineCount = 1, currentDate = \<lparr>day = 1, month = 1, year = 2025\<rparr>\<rparr>"
  by (simp add: stateOneBatch_def run_defs)

lemma stateTwoBatches_eq:
  "stateTwoBatches =
     \<lparr>lotHeap =
     (\<lambda>a. emptyLot)
     (0 := \<lparr>lot = ''B2'', name = ''V1'',
     validation = \<lparr>day = 1, month = 7, year = 2025\<rparr>, doses = 10,
     dosesUsed = 0, isRemoved = False\<rparr>,
     Suc 0 :=
     \<lparr>lot = ''B1'', name = ''V1'',
     validation = \<lparr>day = 1, month = 6, year = 2025\<rparr>, doses = 10,
     dosesUsed = 0, isRemoved = False\<rparr>),
     nextLot = Suc (Suc 0), inocHeap = (\<lambda>a. emptyInoc), nextInoc = 0,
     hashTable = (\<lambda>i. [])(856 := [0], 855 := [Suc 0]),
     nameHashTable =
     (\<lambda>i. [])(506 := [\<lparr>vni_name = ''V1'', lots = [0, Suc 0]\<rparr>]),
     userHashTable = (\<lambda>i. []), vaccineList = [Suc 0, 0],
     inoculationList = [], vaccineCount = 2,
     currentDate = \<lparr>day = 1, month = 1, year = 2025\<rparr>\<rparr>"
  by (simp add: stateTwoBatches_def run_defs)

lemma stateOneDoseUsed_eq:
  "stateOneDoseUsed =
     \<lparr>lotHeap =
     (\<lambda>a. emptyLot)
     (0 := \<lparr>lot = ''A1'', name = ''V1'',
     validation = \<lparr>day = 1, month = 6, year = 2025\<rparr>, doses = 10,
     dosesUsed = 1, isRemoved = False\<rparr>),
     nextLot = Suc 0,
     inocHeap =
     (\<lambda>a. emptyInoc)
     (0 := \<lparr>user = ''Alice'', inoc_lot = ''A1'',
     date = \<lparr>day = 1, month = 1, year = 2025\<rparr>\<rparr>),
     nextInoc = Suc 0, hashTable = (\<lambda>i. [])(822 := [0]),
     nameHashTable = (\<lambda>i. [])(506 := [\<lparr>vni_name = ''V1'', lots = [0]\<rparr>]),
     userHashTable =
     (\<lambda>i. [])(159 := [\<lparr>userName = ''Alice'', inoculations = [0]\<rparr>]),
     vaccineList = [0], inoculationList = [0], vaccineCount = 1,
     currentDate = \<lparr>day = 1, month = 1, year = 2025\<rparr>\<rparr>"
  by (simp add: stateOneDoseUsed_def run_defs)


lemma stateThreeDoses_eq:
  "stateThreeDoses =
     \<lparr>lotHeap =
     (\<lambda>a. emptyLot)
     (0 := \<lparr>lot = ''A1'', name = ''V1'',
     validation = \<lparr>day = 1, month = 6, year = 2025\<rparr>, doses = 10,
     dosesUsed = 1, isRemoved = False\<rparr>,
     Suc 0 :=
     \<lparr>lot = ''A2'', name = ''V2'',
     validation = \<lparr>day = 1, month = 6, year = 2025\<rparr>, doses = 10,
     dosesUsed = 1, isRemoved = False\<rparr>,
     Suc (Suc 0) :=
     \<lparr>lot = ''A3'', name = ''V3'',
     validation = \<lparr>day = 1, month = 6, year = 2025\<rparr>, doses = 10,
     dosesUsed = 1, isRemoved = False\<rparr>),
     nextLot = Suc (Suc (Suc 0)),
     inocHeap =
     (\<lambda>a. emptyInoc)
     (0 := \<lparr>user = ''Alice'', inoc_lot = ''A1'',
     date = \<lparr>day = 1, month = 1, year = 2025\<rparr>\<rparr>,
     Suc 0 :=
     \<lparr>user = ''Alice'', inoc_lot = ''A2'',
     date = \<lparr>day = 2, month = 1, year = 2025\<rparr>\<rparr>,
     Suc (Suc 0) :=
     \<lparr>user = ''Alice'', inoc_lot = ''A3'',
     date = \<lparr>day = 2, month = 1, year = 2025\<rparr>\<rparr>),
     nextInoc = Suc (Suc (Suc 0)),
     hashTable =
     (\<lambda>i. [])(822 := [0], 823 := [Suc 0], 824 := [Suc (Suc 0)]),
     nameHashTable =
     (\<lambda>i. [])
     (506 := [\<lparr>vni_name = ''V1'', lots = [0]\<rparr>],
     507 := [\<lparr>vni_name = ''V2'', lots = [Suc 0]\<rparr>],
     508 := [\<lparr>vni_name = ''V3'', lots = [Suc (Suc 0)]\<rparr>]),
     userHashTable =
     (\<lambda>i. [])
     (159 :=
     [\<lparr>userName = ''Alice'',
     inoculations = [0, Suc 0, Suc (Suc 0)]\<rparr>]),
     vaccineList = [Suc (Suc 0), Suc 0, 0],
     inoculationList = [Suc (Suc 0), Suc 0, 0], vaccineCount = 3,
     currentDate = \<lparr>day = 2, month = 1, year = 2025\<rparr>\<rparr>"
  by (simp add: stateThreeDoses_def run_defs)

lemma stateBatchExhausted_eq:
  "stateBatchExhausted =
     \<lparr>lotHeap =
     (\<lambda>a. emptyLot)
     (0 := \<lparr>lot = ''A1'', name = ''V1'',
     validation = \<lparr>day = 1, month = 6, year = 2025\<rparr>, doses = 1,
     dosesUsed = 1, isRemoved = False\<rparr>),
     nextLot = Suc 0,
     inocHeap =
     (\<lambda>a. emptyInoc)
     (0 := \<lparr>user = ''Alice'', inoc_lot = ''A1'',
     date = \<lparr>day = 1, month = 1, year = 2025\<rparr>\<rparr>),
     nextInoc = Suc 0, hashTable = (\<lambda>i. [])(822 := [0]),
     nameHashTable = (\<lambda>i. [])(506 := [\<lparr>vni_name = ''V1'', lots = [0]\<rparr>]),
     userHashTable =
     (\<lambda>i. [])(159 := [\<lparr>userName = ''Alice'', inoculations = [0]\<rparr>]),
     vaccineList = [0], inoculationList = [0], vaccineCount = 1,
     currentDate = \<lparr>day = 1, month = 1, year = 2025\<rparr>\<rparr>"
  by (simp add: stateBatchExhausted_def run_defs)

lemma stateGuardByName_eq:
  "stateGuardByName =
     \<lparr>lotHeap =
     (\<lambda>a. emptyLot)
     (Suc 0 :=
     \<lparr>lot = ''B2'', name = ''V1'',
     validation = \<lparr>day = 1, month = 7, year = 2025\<rparr>, doses = 10,
     dosesUsed = 0, isRemoved = False\<rparr>,
     0 := \<lparr>lot = ''B1'', name = ''V1'',
     validation = \<lparr>day = 1, month = 6, year = 2025\<rparr>, doses = 1,
     dosesUsed = 1, isRemoved = False\<rparr>),
     nextLot = Suc (Suc 0),
     inocHeap =
     (\<lambda>a. emptyInoc)
     (0 := \<lparr>user = ''Alice'', inoc_lot = ''B1'',
     date = \<lparr>day = 1, month = 1, year = 2025\<rparr>\<rparr>),
     nextInoc = Suc 0, hashTable = (\<lambda>i. [])(855 := [0], 856 := [Suc 0]),
     nameHashTable =
     (\<lambda>i. [])(506 := [\<lparr>vni_name = ''V1'', lots = [0, Suc 0]\<rparr>]),
     userHashTable =
     (\<lambda>i. [])(159 := [\<lparr>userName = ''Alice'', inoculations = [0]\<rparr>]),
     vaccineList = [Suc 0, 0], inoculationList = [0], vaccineCount = 2,
     currentDate = \<lparr>day = 1, month = 1, year = 2025\<rparr>\<rparr>"
  by (simp add: stateGuardByName_def run_defs)


section \<open>Revoke and the batches\<close>

lemma commandD_batchStore: "batchStore (fst (commandD args hs cur pt s)) = batchStore s"
  by (simp add: commandD_def removeMatchingInoculations_def batchStore_def
      split: sum.splits option.splits prod.splits)

lemma commandR_batchStore_cong:
  assumes "batchStore s1 = batchStore s2"
  shows "snd (commandR b hs pt s1) = snd (commandR b hs pt s2)"
    and "batchStore (fst (commandR b hs pt s1)) = batchStore (fst (commandR b hs pt s2))"
  using assms
  by (auto simp: commandR_def batchStore_def handleUnusedVaccineLot_def handleUsedVaccineLot_def
      removeVaccineFromHash_def removeVaccineFromList_def removeVaccineFromNameIndex_def Let_def
      split: option.splits)


text \<open>
  Claim C9. Command d (Revoke) leaves every batch as it was: the lot heap, the id index,
  the name groups, the global batch list and the batch counter are those of the state
  before, whatever the arguments and whether or not the call succeeds. A later command r
  (Retire) therefore prints the same \<open>dosesUsed\<close> and takes the same branch as it
  would have without the revocation; in particular a batch with \<open>dosesUsed > 0\<close>
  is frozen in place, not purged, even when all its inoculations have been revoked.
\<close>

theorem revoke_leaves_batches_unchanged:
  "batchStore (fst (commandD args hs cur pt s)) = batchStore s \<and>
   snd (commandR b hs pt (fst (commandD args hs cur pt s))) = snd (commandR b hs pt s) \<and>
   batchStore (fst (commandR b hs pt (fst (commandD args hs cur pt s)))) =
     batchStore (fst (commandR b hs pt s)) \<and>
   (b \<noteq> [] \<and> findVaccineByBatch (lotHeap s) (hashTable s) b hs = Some l \<and>
    dosesUsed (lotHeap s l) > 0 \<longrightarrow>
      snd (commandR b hs pt (fst (commandD args hs cur pt s))) = [fmt_d (dosesUsed (lotHeap s l))] \<and>
      isRemoved (lotHeap (fst (commandR b hs pt (fst (commandD args hs cur pt s)))) l) \<and>
      hashTable (fst (commandR b hs pt (fst (commandD args hs cur pt s)))) = hashTable s \<and>
      vaccineList (fst (commandR b hs pt (fst (commandD args hs cur pt s)))) = vaccineList s)"
proof -
  let ?s' = "fst (commandD args hs cur pt s)"
  have bs: "batchStore ?s' = batchStore s" by (rule commandD_batchStore)
  have out: "snd (commandR b hs pt ?s') = snd (commandR b hs pt s)"
    and st: "batchStore (fst (commandR b hs pt ?s')) = batchStore (fst (commandR b hs pt s))"
    using commandR_batchStore_cong[OF bs] by auto
  have fr: "snd (commandR b hs pt s) = [fmt_d (dosesUsed (lotHeap s l))] \<and>
            batchStore (fst (commandR b hs pt s)) =
              batchStore (s\<lparr>lotHeap := (lotHeap s)
                (l := (lotHeap s l)\<lparr>isRemoved := True, doses := dosesUsed (lotHeap s l)\<rparr>)\<rparr>)"
    if "b \<noteq> []" "findVaccineByBatch (lotHeap s) (hashTable s) b hs = Some l"
       "dosesUsed (lotHeap s l) > 0"
    using that by (simp add: commandR_def handleUsedVaccineLot_def)
  show ?thesis using bs out st fr by (auto simp: batchStore_def)
qed

theorem revoke_leaves_batches_unchanged_witness:
  "findVaccineByBatch (lotHeap stateOneDoseUsed) (hashTable stateOneDoseUsed) ''A1'' HASH_SIZE = Some 0 \<and>
   dosesUsed (lotHeap stateOneDoseUsed 0) = 1 \<and>
   snd (commandD ''Alice'' HASH_SIZE (currentDate stateOneDoseUsed) False stateOneDoseUsed) = [''1''] \<and>
   commandU ''Alice'' HASH_SIZE False
     (fst (commandD ''Alice'' HASH_SIZE (currentDate stateOneDoseUsed) False stateOneDoseUsed)) =
     [''Alice: no such user''] \<and>
   snd (commandR ''A1'' HASH_SIZE False
     (fst (commandD ''Alice'' HASH_SIZE (currentDate stateOneDoseUsed) False stateOneDoseUsed))) = [''1''] \<and>
   isRemoved (lotHeap (fst (commandR ''A1'' HASH_SIZE False
     (fst (commandD ''Alice'' HASH_SIZE (currentDate stateOneDoseUsed) False stateOneDoseUsed)))) 0)"
proof -
  have h1: "findVaccineByBatch (lotHeap stateOneDoseUsed) (hashTable stateOneDoseUsed) ''A1'' HASH_SIZE = Some 0"
    by (simp add: stateOneDoseUsed_eq run_defs)
  have h2: "dosesUsed (lotHeap stateOneDoseUsed 0) = 1"
    by (simp add: stateOneDoseUsed_eq run_defs)
  have h3: "snd (commandD ''Alice'' HASH_SIZE (currentDate stateOneDoseUsed) False stateOneDoseUsed) = [''1'']"
    by (simp add: stateOneDoseUsed_eq run_defs)
  have h4: "commandU ''Alice'' HASH_SIZE False
     (fst (commandD ''Alice'' HASH_SIZE (currentDate stateOneDoseUsed) False stateOneDoseUsed)) =
     [''Alice: no such user'']"
    by (simp add: stateOneDoseUsed_eq run_defs)
  have h5: "fmt_d 1 = ''1''" by (simp add: run_defs)
  have "snd (commandR ''A1'' HASH_SIZE False
     (fst (commandD ''Alice'' HASH_SIZE (currentDate stateOneDoseUsed) False stateOneDoseUsed))) =
       [fmt_d (dosesUsed (lotHeap stateOneDoseUsed 0))] \<and>
     isRemoved (lotHeap (fst (commandR ''A1'' HASH_SIZE False
     (fst (commandD ''Alice'' HASH_SIZE (currentDate stateOneDoseUsed) False stateOneDoseUsed)))) 0)"
    using h1 h2
      revoke_leaves_batches_unchanged[of "''Alice''" HASH_SIZE "currentDate stateOneDoseUsed"
        False stateOneDoseUsed "''A1''" 0]
    by force
  then show ?thesis using h1 h2 h3 h4 h5 by simp
qed

section \<open>Listing one vaccine name\<close>

text \<open>
  Claim C8. For a vaccine name whose group is present and non-empty, command l with
  that name prints the lots of the group in the order of the group's array (insertion
  order, perturbed by the swap-with-last removals of command r): the sorted copy
  \<open>validLots\<close> is built and discarded. The witness is a group whose array order
  differs from the order of validity date and id that the listing of all batches uses.
\<close>

theorem listByName_prints_group_order:
  "findVaccineByName (nameHashTable s) vac hs = Some e \<and> lots e \<noteq> [] \<longrightarrow>
     listVaccinesByName s vac hs pt = map (\<lambda>a. printVaccine (lotHeap s a)) (lots e)"
  by (simp add: listVaccinesByName_def printVaccineLots_def Let_def)

theorem listByName_prints_group_order_witness:
  "findVaccineByName (nameHashTable stateTwoBatches) ''V1'' HASH_SIZE =
     Some \<lparr>vni_name = ''V1'', lots = [0, 1]\<rparr> \<and>
   map (\<lambda>a. printVaccine (lotHeap stateTwoBatches a)) [0, 1] =
     [''V1 B2 01-07-2025 10 0'', ''V1 B1 01-06-2025 10 0''] \<and>
   listVaccinesByName stateTwoBatches ''V1'' HASH_SIZE False =
     [''V1 B2 01-07-2025 10 0'', ''V1 B1 01-06-2025 10 0''] \<and>
   listAllVaccines stateTwoBatches =
     [''V1 B1 01-06-2025 10 0'', ''V1 B2 01-07-2025 10 0'']"
proof -
  have h1: "findVaccineByName (nameHashTable stateTwoBatches) ''V1'' HASH_SIZE =
     Some \<lparr>vni_name = ''V1'', lots = [0, 1]\<rparr>"
    by (simp add: stateTwoBatches_eq run_defs)
  have h2: "map (\<lambda>a. printVaccine (lotHeap stateTwoBatches a)) [0, 1] =
     [''V1 B2 01-07-2025 10 0'', ''V1 B1 01-06-2025 10 0'']"
    by (simp add: stateTwoBatches_eq run_defs)
  have h3: "listAllVaccines stateTwoBatches =
     [''V1 B1 01-06-2025 10 0'', ''V1 B2 01-07-2025 10 0'']"
    by (simp add: stateTwoBatches_eq run_defs)
  show ?thesis
    using h1 h2 h3
      listByName_prints_group_order[of stateTwoBatches "''V1''" HASH_SIZE
        "\<lparr>vni_name = ''V1'', lots = [0, 1]\<rparr>" False]
    by simp
qed

section \<open>Register: the order of the capacity and duplicate checks\<close>














section \<open>Register: incomplete argument lines\<close>

lemma strtok_r_none: "isSpaces sp \<Longrightarrow> strtok_r sp = (None, [])"
  by (simp add: strtok_r_def isSpaces_def list_all_iff dropWhile_eq_Nil_conv)

lemma strtok_r_last: "isSpaces sp \<Longrightarrow> isToken w \<Longrightarrow> strtok_r (sp @ w) = (Some w, [])"
proof -
  assume sp: "isSpaces sp" and w: "isToken w"
  have d: "dropWhile (\<lambda>c. c = CHR '' '') (sp @ w) = w"
    using sp w by (cases w) (auto simp: isSpaces_def isToken_def list_all_iff dropWhile_append2)
  have t: "takeWhile (\<lambda>c. c \<noteq> CHR '' '') w = w" and e: "dropWhile (\<lambda>c. c \<noteq> CHR '' '') w = []"
    using w by (auto simp: isToken_def list_all_iff)
  show ?thesis using w by (simp add: strtok_r_def d t e isToken_def)
qed

lemma strtok_r_more:
  "isSpaces sp \<Longrightarrow> isToken w \<Longrightarrow> strtok_r (sp @ w @ CHR '' '' # r) = (Some w, r)"
proof -
  assume sp: "isSpaces sp" and w: "isToken w"
  have d: "dropWhile (\<lambda>c. c = CHR '' '') (sp @ w @ CHR '' '' # r) = w @ CHR '' '' # r"
    using sp w by (cases w) (auto simp: isSpaces_def isToken_def list_all_iff dropWhile_append2)
  have t: "takeWhile (\<lambda>c. c \<noteq> CHR '' '') (w @ CHR '' '' # r) = w"
    and e: "dropWhile (\<lambda>c. c \<noteq> CHR '' '') (w @ CHR '' '' # r) = CHR '' '' # r"
    using w by (auto simp: isToken_def list_all_iff takeWhile_tail dropWhile_append3
        dropWhile_eq_Nil_conv)
  show ?thesis using w by (simp add: strtok_r_def d t e isToken_def)
qed

lemma strtok_r_spaces_then:
  "isSpaces sp \<Longrightarrow> sp \<noteq> [] \<Longrightarrow> isSpaces sp' \<Longrightarrow> isToken w \<Longrightarrow>
     strtok_r (sp' @ w @ sp @ r) = (Some w, tl sp @ r)"
  using strtok_r_more[of sp' w "tl sp @ r"]
  by (cases sp) (auto simp: isSpaces_def)

lemma blank_name_invalid: "isSpaces sp \<Longrightarrow> sp \<noteq> [] \<Longrightarrow> \<not> isValidName sp"
  by (cases sp) (auto simp: isValidName_def isSpaces_def isspace_def)

text \<open>
  Claim C10 says that a Register line without a vaccine name prints the out-of-memory
  message and never a validation message. The name is whatever follows the delimiter
  after the dose count: with two blanks after the dose count and nothing else, the name
  is one blank, the arguments are accepted by the parser and the command prints
  "invalid name".
\<close>

theorem register_blank_name_counterexample:
  "parseArgumentsC ''A1 01-06-2025 10  '' =
     Some (''A1'', \<lparr>day = 1, month = 6, year = 2025\<rparr>, 10, '' '') \<and>
   commandC ''A1 01-06-2025 10  '' HASH_SIZE MAX_VACCINES (currentDate initialRegistry) False
     initialRegistry = (initialRegistry, [''invalid name'']) \<and>
   handleCommand (CHR ''c'') ''A1 01-06-2025 10  '' True initialRegistry =
     (initialRegistry, [''nome inv'' @ [CHR 0xC3, CHR 0xA1] @ ''lido''])"
  by (simp add: run_defs)

text \<open>
  Claim C10, amended. A Register line made of tokens separated by spaces that stops
  early prints the out-of-memory message and leaves the registry as it was, whatever the
  tokens are: the line is empty or only spaces, or it ends after the batch id (the date
  token is missing), or after the date token (the dose count is missing), or after the
  dose count with at most the one delimiter behind it (the vaccine name is missing).
  When two or more spaces and nothing else follow the dose count, the spaces after the
  first are taken for the name: the command prints the out-of-memory message if the date
  token does not read as a date, and otherwise a validation message, "invalid batch" if
  the id is ill-formed and else "invalid name"; the registry is left as it was.
\<close>

theorem register_incomplete_arguments:
  "isSpaces sp0 \<and> isSpaces sp1 \<and> isSpaces sp2 \<and> isSpaces sp3 \<and> sp1 \<noteq> [] \<and> sp2 \<noteq> [] \<and>
   isToken batch \<and> isToken dateTok \<and> isToken dosesTok \<longrightarrow>
     ((args = sp0 \<or> args = sp0 @ batch \<or> args = sp0 @ batch @ sp1 \<or>
       args = sp0 @ batch @ sp1 @ dateTok \<or> args = sp0 @ batch @ sp1 @ dateTok @ sp2 \<or>
       (args = sp0 @ batch @ sp1 @ dateTok @ sp2 @ dosesTok @ sp3 \<and> length sp3 \<le> 1)) \<longrightarrow>
        commandC args hs maxVaccines cur pt s = (s, [msgNoMemory pt])) \<and>
     (args = sp0 @ batch @ sp1 @ dateTok @ sp2 @ dosesTok @ sp3 \<and> length sp3 \<ge> 2 \<longrightarrow>
        commandC args hs maxVaccines cur pt s =
          (s, [if sscanf_date dateTok = None then msgNoMemory pt
               else if \<not> isValidBatch batch then msgInvalidBatch pt
               else msgInvalidName pt]))"
proof (intro impI conjI, elim conjE)
  assume sp: "isSpaces sp0" "isSpaces sp1" "isSpaces sp2" "isSpaces sp3" "sp1 \<noteq> []" "sp2 \<noteq> []"
    and tk: "isToken batch" "isToken dateTok" "isToken dosesTok"
  have nil: "isSpaces []" by (simp add: isSpaces_def)
  have tl1: "isSpaces (tl sp1)" "isSpaces (tl sp2)"
    using sp by (cases sp1; cases sp2; simp add: isSpaces_def)+
  assume "args = sp0 \<or> args = sp0 @ batch \<or> args = sp0 @ batch @ sp1 \<or>
    args = sp0 @ batch @ sp1 @ dateTok \<or> args = sp0 @ batch @ sp1 @ dateTok @ sp2 \<or>
    (args = sp0 @ batch @ sp1 @ dateTok @ sp2 @ dosesTok @ sp3 \<and> length sp3 \<le> 1)"
  then consider
      (a) "args = sp0" | (b) "args = sp0 @ batch" | (c) "args = sp0 @ batch @ sp1"
    | (d) "args = sp0 @ batch @ sp1 @ dateTok" | (e) "args = sp0 @ batch @ sp1 @ dateTok @ sp2"
    | (f) "args = sp0 @ batch @ sp1 @ dateTok @ sp2 @ dosesTok @ sp3" "length sp3 \<le> 1"
    by blast
  then have "parseArgumentsC args = None"
  proof cases
    case a
    then show ?thesis using sp by (simp add: parseArgumentsC_def strtok_r_none)
  next
    case b
    then show ?thesis using sp tk nil
      by (simp add: parseArgumentsC_def strtok_r_last strtok_r_none)
  next
    case c
    have "strtok_r (sp0 @ batch @ sp1 @ []) = (Some batch, tl sp1 @ [])"
      using sp tk by (intro strtok_r_spaces_then) auto
    then show ?thesis using c tl1
      by (simp add: parseArgumentsC_def strtok_r_none)
  next
    case d
    have "strtok_r (sp0 @ batch @ sp1 @ dateTok) = (Some batch, tl sp1 @ dateTok)"
      using sp tk by (intro strtok_r_spaces_then) auto
    moreover have "strtok_r (tl sp1 @ dateTok) = (Some dateTok, [])"
      using tl1 tk by (intro strtok_r_last) auto
    ultimately show ?thesis using d nil
      by (simp add: parseArgumentsC_def strtok_r_none split: option.splits)
  next
    case e
    have "strtok_r (sp0 @ batch @ sp1 @ dateTok @ sp2) = (Some batch, tl sp1 @ dateTok @ sp2)"
      using sp tk by (intro strtok_r_spaces_then) auto
    moreover have "strtok_r (tl sp1 @ dateTok @ sp2 @ []) = (Some dateTok, tl sp2 @ [])"
      using tl1 tk sp by (intro strtok_r_spaces_then) auto
    ultimately show ?thesis using e tl1
      by (simp add: parseArgumentsC_def strtok_r_none split: option.splits)
  next
    case f
    have sp3: "sp3 = [] \<or> sp3 = '' ''"
      using sp f(2) by (cases sp3) (auto simp: isSpaces_def)
    have "strtok_r (sp0 @ batch @ sp1 @ dateTok @ sp2 @ dosesTok @ sp3) =
            (Some batch, tl sp1 @ dateTok @ sp2 @ dosesTok @ sp3)"
      using sp tk by (intro strtok_r_spaces_then) auto
    moreover have "strtok_r (tl sp1 @ dateTok @ sp2 @ dosesTok @ sp3) =
            (Some dateTok, tl sp2 @ dosesTok @ sp3)"
      using tl1 tk sp by (intro strtok_r_spaces_then) auto
    moreover have "strtok_r (tl sp2 @ dosesTok @ sp3) = (Some dosesTok, [])"
      using sp3 tl1 tk strtok_r_last[of "tl sp2" dosesTok] strtok_r_more[of "tl sp2" dosesTok "[]"]
      by auto
    ultimately show ?thesis using f
      by (simp add: parseArgumentsC_def split: option.splits)
  qed
  then show "commandC args hs maxVaccines cur pt s = (s, [msgNoMemory pt])"
    by (simp add: commandC_def)
next
  assume "isSpaces sp0 \<and> isSpaces sp1 \<and> isSpaces sp2 \<and> isSpaces sp3 \<and> sp1 \<noteq> [] \<and> sp2 \<noteq> [] \<and>
   isToken batch \<and> isToken dateTok \<and> isToken dosesTok"
  then have sp: "isSpaces sp0" "isSpaces sp1" "isSpaces sp2" "isSpaces sp3" "sp1 \<noteq> []" "sp2 \<noteq> []"
    and tk: "isToken batch" "isToken dateTok" "isToken dosesTok"
    by simp_all
  have tl1: "isSpaces (tl sp1)" "isSpaces (tl sp2)"
    using sp by (cases sp1; cases sp2; simp add: isSpaces_def)+
  assume g: "args = sp0 @ batch @ sp1 @ dateTok @ sp2 @ dosesTok @ sp3 \<and> length sp3 \<ge> 2"
  then have ne: "sp3 \<noteq> []" "tl sp3 \<noteq> []" "isSpaces (tl sp3)"
    using sp by (cases sp3; cases "tl sp3"; auto simp: isSpaces_def)+
  have s1: "strtok_r args = (Some batch, tl sp1 @ dateTok @ sp2 @ dosesTok @ sp3)"
    using sp tk g by (simp add: strtok_r_spaces_then)
  have s2: "strtok_r (tl sp1 @ dateTok @ sp2 @ dosesTok @ sp3) =
            (Some dateTok, tl sp2 @ dosesTok @ sp3)"
    using tl1 tk sp by (intro strtok_r_spaces_then) auto
  have "strtok_r (tl sp2 @ dosesTok @ sp3 @ []) = (Some dosesTok, tl sp3 @ [])"
    using tl1 tk sp ne by (intro strtok_r_spaces_then) auto
  then have s3: "strtok_r (tl sp2 @ dosesTok @ sp3) = (Some dosesTok, tl sp3)"
    by simp
  have p: "parseArgumentsC args =
    (case sscanf_date dateTok of None \<Rightarrow> None
     | Some (d, m, y) \<Rightarrow> Some (batch, \<lparr>day = d, month = m, year = y\<rparr>, atoi dosesTok, tl sp3))"
    using ne by (simp add: parseArgumentsC_def s1 s2 s3 split: option.splits)
  show "commandC args hs maxVaccines cur pt s =
          (s, [if sscanf_date dateTok = None then msgNoMemory pt
               else if \<not> isValidBatch batch then msgInvalidBatch pt
               else msgInvalidName pt])"
    using blank_name_invalid[OF ne(3) ne(2)]
    by (auto simp: commandC_def p validateNewVaccine_def split: option.splits)
qed

theorem register_incomplete_arguments_witness:
  "isToken ''A1'' \<and> isToken ''01-06-2025'' \<and> isToken ''10'' \<and> isSpaces '' '' \<and> isSpaces [] \<and>
   snd (handleCommand (CHR ''c'') ''A1'' False stateOneBatch) = [''No memory''] \<and>
   snd (handleCommand (CHR ''c'') ''A1 01-06-2025'' False stateOneBatch) = [''No memory''] \<and>
   snd (handleCommand (CHR ''c'') ''A1 01-06-2025 10'' False stateOneBatch) = [''No memory''] \<and>
   snd (handleCommand (CHR ''c'') ''A1 01-06-2025 10 '' True stateOneBatch) =
     [''sem mem'' @ [CHR 0xC3, CHR 0xB3] @ ''ria''] \<and>
   fst (handleCommand (CHR ''c'') ''A1 01-06-2025 10'' False stateOneBatch) = stateOneBatch \<and>
   isSpaces ''  '' \<and> sscanf_date ''01-06-2025'' \<noteq> None \<and> isValidBatch ''A1'' \<and>
   handleCommand (CHR ''c'') ''A1 01-06-2025 10  '' False stateOneBatch =
     (stateOneBatch, [''invalid name''])"
proof -
  have h: "isToken ''A1''" "isToken ''01-06-2025''" "isToken ''10''" "isSpaces '' ''" "isSpaces []"
    "isSpaces ''  ''"
    by (simp_all add: isToken_def isSpaces_def)
  have v: "sscanf_date ''01-06-2025'' \<noteq> None" "isValidBatch ''A1''"
    by (simp_all add: run_defs)
  note t = register_incomplete_arguments[where batch = "''A1''" and dateTok = "''01-06-2025''"
      and dosesTok = "''10''" and ?sp0.0 = "[]" and ?sp1.0 = "'' ''" and ?sp2.0 = "'' ''"
      and hs = HASH_SIZE and maxVaccines = MAX_VACCINES and cur = "currentDate stateOneBatch"
      and s = stateOneBatch]
  show ?thesis
    using h v t[where args = "''A1''" and ?sp3.0 = "[]" and pt = False]
      t[where args = "''A1 01-06-2025''" and ?sp3.0 = "[]" and pt = False]
      t[where args = "''A1 01-06-2025 10''" and ?sp3.0 = "[]" and pt = False]
      t[where args = "''A1 01-06-2025 10 ''" and ?sp3.0 = "'' ''" and pt = True]
      t[where args = "''A1 01-06-2025 10  ''" and ?sp3.0 = "''  ''" and pt = False]
    by (simp add: handleCommand_def msgNoMemory_def msgInvalidName_def)
qed

section \<open>Revoke: the order of the checks\<close>

lemma isspace_not_quote: "isspace c \<Longrightarrow> c \<noteq> CHR 0x22"
  by (auto simp: isspace_def)

lemma takeWhile_token:
  "list_all P w \<Longrightarrow> (r = [] \<or> \<not> P (hd r)) \<Longrightarrow> takeWhile P (w @ r) = w"
  by (cases r) (auto simp: list_all_iff takeWhile_tail)

lemma dropWhile_token:
  "list_all P w \<Longrightarrow> (r = [] \<or> \<not> P (hd r)) \<Longrightarrow> dropWhile P (w @ r) = r"
  by (cases r) (auto simp: list_all_iff dropWhile_append3 dropWhile_eq_Nil_conv)

lemma strchr_token:
  "list_all (\<lambda>x. x \<noteq> c) w \<Longrightarrow> strchr (w @ c # r) c = Some (c # r)"
  by (induction w) auto

lemma parseUserName_unquoted:
  assumes "unquotedUserThenDate args usr ws dateTok more_text"
  shows "parseUserName args = Some (usr, tl ws @ dateTok @ more_text)"
proof -
  from assms obtain u us where u: "usr = u # us" "\<not> isspace u" "u \<noteq> CHR 0x22"
    by (cases usr) (auto simp: unquotedUserThenDate_def noSpace_def)
  from assms obtain w wss where w: "ws = w # wss" "isspace w"
    by (cases ws) (auto simp: unquotedUserThenDate_def allSpace_def)
  have a: "args = usr @ (w # wss @ dateTok @ more_text)"
    using assms w by (simp add: unquotedUserThenDate_def)
  have d0: "dropWhile isspace args = args" using a u by simp
  have ns: "list_all (\<lambda>c. \<not> isspace c) usr"
    using assms by (simp add: unquotedUserThenDate_def noSpace_def)
  have t: "takeWhile (\<lambda>c. \<not> isspace c) args = usr"
    unfolding a using ns w by (intro takeWhile_token) auto
  have d: "dropWhile (\<lambda>c. \<not> isspace c) args = w # wss @ dateTok @ more_text"
    unfolding a using ns w by (intro dropWhile_token) auto
  show ?thesis
    unfolding parseUserName_def Let_def d0 t d using a u w by simp
qed

lemma parseUserName_quoted:
  assumes "quotedUserThenDate args usr ws dateTok more_text"
  shows "parseUserName args = Some (usr, ws @ dateTok @ more_text)"
proof -
  have a: "args = CHR 0x22 # usr @ CHR 0x22 # (ws @ dateTok @ more_text)"
    and nq: "list_all (\<lambda>c. c \<noteq> CHR 0x22) usr"
    using assms by (simp_all add: quotedUserThenDate_def)
  have d0: "dropWhile isspace args = args" using a by (simp add: isspace_def)
  have s: "strchr (tl args) (CHR 0x22) = Some (CHR 0x22 # (ws @ dateTok @ more_text))"
    unfolding a using nq by (simp add: strchr_token)
  have t: "takeWhile (\<lambda>c. c \<noteq> CHR 0x22) (tl args) = usr"
    unfolding a using nq by (simp add: takeWhile_tail list_all_iff)
  show ?thesis
    unfolding parseUserName_def Let_def d0 s t using a by simp
qed

lemma date_token_extracted:
  assumes "allSpace ws" "dateTok \<noteq> []" "noSpace dateTok"
    "more_text = [] \<or> isspace (hd more_text)"
  shows "skipWhitespace (ws @ dateTok @ more_text) = dateTok @ more_text"
    and "dateTok @ more_text \<noteq> []"
    and "extractDateString (dateTok @ more_text) =
           (if length dateTok \<ge> 32 then None else Some (dateTok, more_text))"
proof -
  from assms obtain c cs where c: "dateTok = c # cs" "\<not> isspace c"
    by (cases dateTok) (auto simp: noSpace_def)
  show "skipWhitespace (ws @ dateTok @ more_text) = dateTok @ more_text"
    unfolding skipWhitespace_def using assms(1) c
    by (simp add: allSpace_def list_all_iff dropWhile_append2)
  show "dateTok @ more_text \<noteq> []" using c by simp
  have ns: "list_all (\<lambda>c. \<not> isspace c) dateTok" using assms by (simp add: noSpace_def)
  have t: "takeWhile (\<lambda>c. \<not> isspace c) (dateTok @ more_text) = dateTok"
    using ns assms(4) by (intro takeWhile_token) auto
  have d: "dropWhile (\<lambda>c. \<not> isspace c) (dateTok @ more_text) = more_text"
    using ns assms(4) by (intro dropWhile_token) auto
  show "extractDateString (dateTok @ more_text) =
           (if length dateTok \<ge> 32 then None else Some (dateTok, more_text))"
    by (simp add: extractDateString_def Let_def t d)
qed

lemma date_token_reaches_parseDateString:
  assumes "allSpace ws" "dateTok \<noteq> []" "noSpace dateTok" "length dateTok < 32"
    "more_text = [] \<or> isspace (hd more_text)"
  shows "parseDateAndLotId (ws @ dateTok @ more_text) usr cur pt =
     (case parseDateString dateTok cur pt of
        Inl out \<Rightarrow> Inl out
      | Inr dt \<Rightarrow> Inr \<lparr>da_userName = usr, da_date = Some dt,
                       da_lotId = extractLotId (skipWhitespace more_text)\<rparr>)"
  using date_token_extracted[OF assms(1,2,3,5)] assms(4)
  by (simp add: parseDateAndLotId_def Let_def)

lemma date_token_too_long:
  assumes "allSpace ws" "dateTok \<noteq> []" "noSpace dateTok" "length dateTok \<ge> 32"
    "more_text = [] \<or> isspace (hd more_text)"
  shows "parseDateAndLotId (ws @ dateTok @ more_text) usr cur pt = Inl []"
  using date_token_extracted[OF assms(1,2,3,5)] assms(4)
  by (simp add: parseDateAndLotId_def Let_def)

lemma invalid_token_rejected:
  "invalidDateToken dateTok cur \<Longrightarrow> parseDateString dateTok cur pt = Inl [msgInvalidDate pt]"
  by (auto simp: invalidDateToken_def parseDateString_def parseDate_def Let_def
      split: option.splits)

lemma valid_token_accepted:
  "\<not> invalidDateToken dateTok cur \<Longrightarrow> \<exists>dt. parseDateString dateTok cur pt = Inr dt"
  by (auto simp: invalidDateToken_def parseDateString_def parseDate_def Let_def
      split: option.splits)

lemma processDeleteArgs_shape:
  assumes "unquotedUserThenDate args usr ws dateTok more_text \<or>
     quotedUserThenDate args usr ws dateTok more_text"
  shows "processDeleteArgs args cur pt =
     (if length dateTok \<ge> 32 then Inl []
      else (case parseDateString dateTok cur pt of
        Inl out \<Rightarrow> Inl out
      | Inr dt \<Rightarrow> Inr \<lparr>da_userName = usr, da_date = Some dt,
                       da_lotId = extractLotId (skipWhitespace more_text)\<rparr>))"
  using assms
proof
  assume u: "unquotedUserThenDate args usr ws dateTok more_text"
  then have ws: "allSpace (tl ws)" by (cases ws) (auto simp: unquotedUserThenDate_def allSpace_def)
  from u have d: "dateTok \<noteq> []" "noSpace dateTok" "more_text = [] \<or> isspace (hd more_text)"
    by (auto simp: unquotedUserThenDate_def)
  show ?thesis
    using date_token_reaches_parseDateString[OF ws d(1,2) _ d(3), of usr cur pt]
      date_token_too_long[OF ws d(1,2) _ d(3), of usr cur pt]
    by (simp add: processDeleteArgs_def parseUserName_unquoted[OF u])
next
  assume q: "quotedUserThenDate args usr ws dateTok more_text"
  then have ws: "allSpace ws" and d: "dateTok \<noteq> []" "noSpace dateTok"
    "more_text = [] \<or> isspace (hd more_text)"
    by (auto simp: quotedUserThenDate_def)
  show ?thesis
    using date_token_reaches_parseDateString[OF ws d(1,2) _ d(3), of usr cur pt]
      date_token_too_long[OF ws d(1,2) _ d(3), of usr cur pt]
    by (simp add: processDeleteArgs_def parseUserName_quoted[OF q])
qed

text \<open>
  Claim C7 says that Revoke for a user who does not exist, with an invalid date filter,
  reports the missing user. The code validates the date while it parses the arguments,
  before it looks the user up: for the unknown user Bob, a date that is not on the
  calendar (31-02-2025) and a date after the clock (02-01-2025 on 01-01-2025) both print
  "invalid date".
\<close>

theorem revoke_date_checked_first_counterexample:
  "findUserByName (userHashTable stateOneDoseUsed) ''Bob'' HASH_SIZE = None \<and>
   unquotedUserThenDate ''Bob 31-02-2025'' ''Bob'' '' '' ''31-02-2025'' [] \<and>
   parseDate ''31-02-2025'' = Some \<lparr>day = 31, month = 2, year = 2025\<rparr> \<and>
   \<not> isDateFormatValid \<lparr>day = 31, month = 2, year = 2025\<rparr> \<and>
   snd (handleCommand (CHR ''d'') ''Bob 31-02-2025'' False stateOneDoseUsed) = [''invalid date''] \<and>
   parseDate ''02-01-2025'' = Some \<lparr>day = 2, month = 1, year = 2025\<rparr> \<and>
   isDateFuture \<lparr>day = 2, month = 1, year = 2025\<rparr> (currentDate stateOneDoseUsed) \<and>
   snd (handleCommand (CHR ''d'') ''Bob 02-01-2025'' False stateOneDoseUsed) = [''invalid date'']"
  by (simp add: stateOneDoseUsed_eq unquotedUserThenDate_def noSpace_def allSpace_def run_defs)

text \<open>
  Claim C7, amended. Revoke validates the date filter first, then the user, then the
  batch filter. For an argument line that is a user name (quoted or not), white space, a
  date token and possibly more text, whether or not the user exists: a date token of 32
  or more characters is rejected without a message; a shorter one that does not read as
  a date, or whose date as read is not calendar-valid or is later than the clock,
  reports InvalidDate; in both cases nothing changes. When the date token is shorter
  than 32 characters and valid and the user does not exist or has no inoculation, the
  call reports NoSuchUser and changes nothing. The same holds of any call whose
  arguments are accepted: an absent user is reported, whether or not the batch filter
  names a batch.
\<close>

theorem revoke_date_checked_first:
  "((unquotedUserThenDate args usr ws dateTok more_text \<or>
     quotedUserThenDate args usr ws dateTok more_text) \<longrightarrow>
      (length dateTok \<ge> 32 \<longrightarrow> commandD args hs cur pt s = (s, [])) \<and>
      (length dateTok < 32 \<and> invalidDateToken dateTok cur \<longrightarrow>
         commandD args hs cur pt s = (s, [msgInvalidDate pt])) \<and>
      (length dateTok < 32 \<and> \<not> invalidDateToken dateTok cur \<and>
       (case findUserByName (userHashTable s) usr hs of
          None \<Rightarrow> True | Some e \<Rightarrow> inoculations e = []) \<longrightarrow>
         commandD args hs cur pt s = (s, [msgNoSuchUser pt usr]))) \<and>
   (processDeleteArgs args cur pt = Inr deleteArgs \<and>
    (case findUserByName (userHashTable s) (da_userName deleteArgs) hs of
       None \<Rightarrow> True | Some e \<Rightarrow> inoculations e = []) \<longrightarrow>
      commandD args hs cur pt s = (s, [msgNoSuchUser pt (da_userName deleteArgs)]))"
proof (intro conjI impI)
  assume h: "unquotedUserThenDate args usr ws dateTok more_text \<or>
     quotedUserThenDate args usr ws dateTok more_text"
  assume "length dateTok \<ge> 32"
  then show "commandD args hs cur pt s = (s, [])"
    by (simp add: commandD_def processDeleteArgs_shape[OF h])
next
  assume h: "unquotedUserThenDate args usr ws dateTok more_text \<or>
     quotedUserThenDate args usr ws dateTok more_text"
  assume "length dateTok < 32 \<and> invalidDateToken dateTok cur"
  then show "commandD args hs cur pt s = (s, [msgInvalidDate pt])"
    by (simp add: commandD_def processDeleteArgs_shape[OF h] invalid_token_rejected)
next
  assume h: "unquotedUserThenDate args usr ws dateTok more_text \<or>
     quotedUserThenDate args usr ws dateTok more_text"
  assume a: "length dateTok < 32 \<and> \<not> invalidDateToken dateTok cur \<and>
       (case findUserByName (userHashTable s) usr hs of
          None \<Rightarrow> True | Some e \<Rightarrow> inoculations e = [])"
  then obtain dt where "parseDateString dateTok cur pt = Inr dt"
    using valid_token_accepted by blast
  with a show "commandD args hs cur pt s = (s, [msgNoSuchUser pt usr])"
    by (auto simp: commandD_def processDeleteArgs_shape[OF h] validateUser_def
        split: option.splits)
next
  assume "processDeleteArgs args cur pt = Inr deleteArgs \<and>
    (case findUserByName (userHashTable s) (da_userName deleteArgs) hs of
       None \<Rightarrow> True | Some e \<Rightarrow> inoculations e = [])"
  then show "commandD args hs cur pt s = (s, [msgNoSuchUser pt (da_userName deleteArgs)])"
    by (auto simp: commandD_def validateUser_def split: option.splits)
qed

theorem revoke_date_checked_first_witness:
  "unquotedUserThenDate ''Bob 31-02-2025'' ''Bob'' '' '' ''31-02-2025'' [] \<and>
   invalidDateToken ''31-02-2025'' (currentDate stateOneDoseUsed) \<and>
   commandD ''Bob 31-02-2025'' HASH_SIZE (currentDate stateOneDoseUsed) False stateOneDoseUsed =
     (stateOneDoseUsed, [msgInvalidDate False]) \<and>
   unquotedUserThenDate ''Bob 0000000000000000000000031-02-2025'' ''Bob'' '' ''
     ''0000000000000000000000031-02-2025'' [] \<and>
   invalidDateToken ''0000000000000000000000031-02-2025'' (currentDate stateOneDoseUsed) \<and>
   commandD ''Bob 0000000000000000000000031-02-2025'' HASH_SIZE (currentDate stateOneDoseUsed)
     False stateOneDoseUsed = (stateOneDoseUsed, []) \<and>
   unquotedUserThenDate ''Bob 01-01-4294969321'' ''Bob'' '' '' ''01-01-4294969321'' [] \<and>
   parseDate ''01-01-4294969321'' = Some \<lparr>day = 1, month = 1, year = 2025\<rparr> \<and>
   \<not> invalidDateToken ''01-01-4294969321'' (currentDate stateOneDoseUsed) \<and>
   commandD ''Bob 01-01-4294969321'' HASH_SIZE (currentDate stateOneDoseUsed) False
     stateOneDoseUsed = (stateOneDoseUsed, [msgNoSuchUser False ''Bob'']) \<and>
   processDeleteArgs ''Bob 01-01-2025 FF'' (currentDate stateOneDoseUsed) False =
     Inr \<lparr>da_userName = ''Bob'', da_date = Some \<lparr>day = 1, month = 1, year = 2025\<rparr>,
          da_lotId = Some ''FF''\<rparr> \<and>
   findUserByName (userHashTable stateOneDoseUsed) ''Bob'' HASH_SIZE = None \<and>
   findVaccineByBatch (lotHeap stateOneDoseUsed) (hashTable stateOneDoseUsed) ''FF'' HASH_SIZE = None \<and>
   commandD ''Bob 01-01-2025 FF'' HASH_SIZE (currentDate stateOneDoseUsed) False stateOneDoseUsed =
     (stateOneDoseUsed, [msgNoSuchUser False ''Bob''])"
proof -
  have h1: "unquotedUserThenDate ''Bob 31-02-2025'' ''Bob'' '' '' ''31-02-2025'' []"
    "unquotedUserThenDate ''Bob 0000000000000000000000031-02-2025'' ''Bob'' '' ''
       ''0000000000000000000000031-02-2025'' []"
    "unquotedUserThenDate ''Bob 01-01-4294969321'' ''Bob'' '' '' ''01-01-4294969321'' []"
    by (simp_all add: unquotedUserThenDate_def noSpace_def allSpace_def isspace_def)
  have h2: "invalidDateToken ''31-02-2025'' (currentDate stateOneDoseUsed)"
    "invalidDateToken ''0000000000000000000000031-02-2025'' (currentDate stateOneDoseUsed)"
    "\<not> invalidDateToken ''01-01-4294969321'' (currentDate stateOneDoseUsed)"
    "parseDate ''01-01-4294969321'' = Some \<lparr>day = 1, month = 1, year = 2025\<rparr>"
    by (simp_all add: invalidDateToken_def stateOneDoseUsed_eq run_defs)
  have h3: "processDeleteArgs ''Bob 01-01-2025 FF'' (currentDate stateOneDoseUsed) False =
     Inr \<lparr>da_userName = ''Bob'', da_date = Some \<lparr>day = 1, month = 1, year = 2025\<rparr>,
          da_lotId = Some ''FF''\<rparr>"
    by (simp add: stateOneDoseUsed_eq run_defs)
  have h4: "findUserByName (userHashTable stateOneDoseUsed) ''Bob'' HASH_SIZE = None"
    by (simp add: stateOneDoseUsed_eq run_defs)
  have h5: "findVaccineByBatch (lotHeap stateOneDoseUsed) (hashTable stateOneDoseUsed) ''FF'' HASH_SIZE = None"
    by (simp add: stateOneDoseUsed_eq run_defs)
  note t = revoke_date_checked_first[where usr = "''Bob''" and ws = "'' ''" and more_text = "[]"
      and cur = "currentDate stateOneDoseUsed" and pt = False and s = stateOneDoseUsed
      and hs = HASH_SIZE]
  show ?thesis
    using h1 h2 h3 h4 h5
      t[where args = "''Bob 31-02-2025''" and dateTok = "''31-02-2025''"]
      t[where args = "''Bob 0000000000000000000000031-02-2025''"
        and dateTok = "''0000000000000000000000031-02-2025''"]
      t[where args = "''Bob 01-01-4294969321''" and dateTok = "''01-01-4294969321''"]
      t[where args = "''Bob 01-01-2025 FF''" and deleteArgs = "\<lparr>da_userName = ''Bob'',
          da_date = Some \<lparr>day = 1, month = 1, year = 2025\<rparr>, da_lotId = Some ''FF''\<rparr>"]
    by simp
qed

section \<open>Revoke and the order of a user's inoculations\<close>

text \<open>
  Claim C2 (the code departs from it). Alice receives A1 on 01-01-2025, then A2 and A3
  on 02-01-2025; her listing shows them in that order. Revoking her inoculations of
  01-01-2025 removes one entry and leaves two, and her listing then shows A3 before A2:
  \<open>removeInoculationFromUser\<close> overwrites the removed slot with the last element of
  the array. The global listing still shows A2 before A3.
\<close>

theorem revoke_disturbs_user_order:
  "commandU ''Alice'' HASH_SIZE False stateThreeDoses =
     [''Alice A1 01-01-2025'', ''Alice A2 02-01-2025'', ''Alice A3 02-01-2025''] \<and>
   snd (handleCommand (CHR ''d'') ''Alice 01-01-2025'' False stateThreeDoses) = [''1''] \<and>
   commandU ''Alice'' HASH_SIZE False
     (fst (handleCommand (CHR ''d'') ''Alice 01-01-2025'' False stateThreeDoses)) =
     [''Alice A3 02-01-2025'', ''Alice A2 02-01-2025''] \<and>
   commandU [] HASH_SIZE False
     (fst (handleCommand (CHR ''d'') ''Alice 01-01-2025'' False stateThreeDoses)) =
     [''Alice A2 02-01-2025'', ''Alice A3 02-01-2025'']"
  by (simp add: stateThreeDoses_eq run_defs)

section \<open>Administer: the allocation policy\<close>

lemma strcmp_eq_0 [simp]: "strcmp a b = 0 \<longleftrightarrow> a = b"
  by (induction a b rule: strcmp.induct) auto

lemma strcmp_less_0: "strcmp a b < 0 \<longleftrightarrow> a < b"
  by (induction a b rule: strcmp.induct) (auto simp: less_char_def)

lemma strcmp_le_0: "strcmp a b \<le> 0 \<longleftrightarrow> a \<le> b"
  using strcmp_less_0[of a b] strcmp_eq_0[of a b] by (auto simp: order.order_iff_strict)

lemma compareVaccines_less: "compareVaccines a b < 0 \<longleftrightarrow> batchKey a < batchKey b"
  by (auto simp: compareVaccines_def batchKey_def dateKey_def strcmp_less_0)

lemma compareVaccines_le: "compareVaccines a b \<le> 0 \<longleftrightarrow> batchKey a \<le> batchKey b"
  by (auto simp: compareVaccines_def batchKey_def dateKey_def strcmp_le_0)

lemma compareDates_ge: "compareDates a b \<ge> 0 \<longleftrightarrow> dateKey b \<le> dateKey a"
  by (auto simp: compareDates_def dateKey_def)

lemma isLotValidAndAvailable_eligible: "isLotValidAndAvailable l cur = eligible l cur"
  by (auto simp: isLotValidAndAvailable_def eligible_def compareDates_ge)

lemma findOldest_result:
  "findOldestValidLotFromList h ls cur acc = r \<Longrightarrow>
     (case r of
        None \<Rightarrow> acc = None \<and> (\<forall>b\<in>set ls. \<not> eligible (h b) cur)
      | Some l \<Rightarrow>
          ((l \<in> set ls \<and> eligible (h l) cur) \<or> acc = Some l) \<and>
          (\<forall>b\<in>set ls. eligible (h b) cur \<longrightarrow> batchKey (h l) \<le> batchKey (h b)) \<and>
          (\<forall>a. acc = Some a \<longrightarrow> batchKey (h l) \<le> batchKey (h a)))"
proof (induction ls arbitrary: acc)
  case Nil
  then show ?case by (auto split: option.splits)
next
  case (Cons x xs)
  let ?acc' = "(if isLotValidAndAvailable (h x) cur then
          (case acc of
             None \<Rightarrow> Some x
           | Some old \<Rightarrow> if compareVaccines (h x) (h old) < 0 then Some x else Some old)
        else acc)"
  from Cons.prems have "findOldestValidLotFromList h xs cur ?acc' = r" by simp
  note ih = Cons.IH[OF this]
  show ?case
  proof (cases r)
    case None
    with ih show ?thesis
      by (auto simp: isLotValidAndAvailable_eligible split: option.splits if_splits)
  next
    case (Some l)
    with ih have 1: "(l \<in> set xs \<and> eligible (h l) cur) \<or> ?acc' = Some l"
      and 2: "\<forall>b\<in>set xs. eligible (h b) cur \<longrightarrow> batchKey (h l) \<le> batchKey (h b)"
      and 3: "\<forall>a. ?acc' = Some a \<longrightarrow> batchKey (h l) \<le> batchKey (h a)"
      by auto
    have a: "(l \<in> set (x # xs) \<and> eligible (h l) cur) \<or> acc = Some l"
      using 1 by (auto simp: isLotValidAndAvailable_eligible split: option.splits if_splits)
    have b: "eligible (h x) cur \<longrightarrow> batchKey (h l) \<le> batchKey (h x)"
      using 3 by (auto simp: isLotValidAndAvailable_eligible compareVaccines_less
          split: option.splits if_splits)
    have c: "\<forall>a. acc = Some a \<longrightarrow> batchKey (h l) \<le> batchKey (h a)"
      using 3 by (auto simp: isLotValidAndAvailable_eligible compareVaccines_less
          split: option.splits if_splits)
    show ?thesis using Some a b c 2 by simp
  qed
qed

lemma lotHeap_addInoculationToUserIndex [simp]:
  "lotHeap (addInoculationToUserIndex i sz s) = lotHeap s"
  by (simp add: addInoculationToUserIndex_def findOrCreateUserIndexEntry_def Let_def
      split: option.splits)

lemma applyVaccine_lotHeap:
  "lotHeap (fst (applyVaccine usr l cur s)) =
     (lotHeap s)(l := (lotHeap s l)\<lparr>dosesUsed := dosesUsed (lotHeap s l) + 1\<rparr>)"
  by (simp add: applyVaccine_def createInoculation_def Let_def)

lemma applyVaccine_output: "snd (applyVaccine usr l cur s) = [lot (lotHeap s l)]"
  by (simp add: applyVaccine_def createInoculation_def Let_def)

text \<open>
  Claim C1 says that Administer reports NoStock whenever no batch of the group is
  eligible. The duplicate guard comes first: after Alice has taken the only dose of A1
  today, no batch of V1 is eligible, and a second request by Alice prints
  "already vaccinated", not "no stock".
\<close>

theorem administer_no_stock_counterexample:
  "eligibleBatches stateBatchExhausted ''V1'' (currentDate stateBatchExhausted) HASH_SIZE = [] \<and>
   handleCommand (CHR ''a'') ''Alice V1'' False stateBatchExhausted =
     (stateBatchExhausted, [''already vaccinated''])"
  by (simp add: stateBatchExhausted_eq eligibleBatches_def nameGroup_def eligible_def dateKey_def
      run_defs)

text \<open>
  Claim C1, amended. When the duplicate guard does not fire (the user has no inoculation
  of that vaccine name dated today): if no batch of the name's group is not frozen, with
  \<open>usedDoses < totalDoses\<close> and \<open>validUntil\<close> not before the clock date,
  Administer reports NoStock and the registry is unchanged; otherwise it selects, among
  those batches, one with the least key (validity date as year, month, day, then batch id
  in lexicographic order), strictly less than the key of every eligible batch with another
  id, prints its id and increments its \<open>dosesUsed\<close>, leaving every other lot as
  it was.
\<close>

theorem administer_allocation:
  "\<not> isAlreadyVaccinated s usr vac cur hs \<longrightarrow>
     (eligibleBatches s vac cur hs = [] \<longrightarrow>
        processVaccineApplication usr vac hs cur pt s = (s, [msgNoStock pt])) \<and>
     (eligibleBatches s vac cur hs \<noteq> [] \<longrightarrow>
        (\<exists>l \<in> set (eligibleBatches s vac cur hs).
           (\<forall>b \<in> set (eligibleBatches s vac cur hs).
              batchKey (lotHeap s l) \<le> batchKey (lotHeap s b) \<and>
              (lot (lotHeap s b) \<noteq> lot (lotHeap s l) \<longrightarrow>
                 batchKey (lotHeap s l) < batchKey (lotHeap s b))) \<and>
           processVaccineApplication usr vac hs cur pt s = applyVaccine usr l cur s \<and>
           snd (processVaccineApplication usr vac hs cur pt s) = [lot (lotHeap s l)] \<and>
           lotHeap (fst (processVaccineApplication usr vac hs cur pt s)) =
             (lotHeap s)(l := (lotHeap s l)\<lparr>dosesUsed := dosesUsed (lotHeap s l) + 1\<rparr>)))"
proof (intro impI conjI)
  assume nv: "\<not> isAlreadyVaccinated s usr vac cur hs"
  have fo: "findOldestValidLot s vac cur hs =
      (if nameGroup s vac hs = [] then None
       else findOldestValidLotFromList (lotHeap s) (nameGroup s vac hs) cur None)"
    by (simp add: findOldestValidLot_def nameGroup_def split: option.splits)
  {
    assume "eligibleBatches s vac cur hs = []"
    then have none: "\<forall>b\<in>set (nameGroup s vac hs). \<not> eligible (lotHeap s b) cur"
      by (simp add: eligibleBatches_def filter_empty_conv)
    have "findOldestValidLot s vac cur hs = None"
    proof (cases "findOldestValidLot s vac cur hs")
      case (Some l)
      then have "findOldestValidLotFromList (lotHeap s) (nameGroup s vac hs) cur None = Some l"
        by (simp add: fo split: if_splits)
      from findOldest_result[OF this] none show ?thesis by auto
    qed simp
    then show "processVaccineApplication usr vac hs cur pt s = (s, [msgNoStock pt])"
      using nv by (simp add: processVaccineApplication_def)
  }
  {
    assume "eligibleBatches s vac cur hs \<noteq> []"
    then obtain b0 where b0: "b0 \<in> set (nameGroup s vac hs)" "eligible (lotHeap s b0) cur"
      by (auto simp: eligibleBatches_def filter_empty_conv)
    then have ne: "nameGroup s vac hs \<noteq> []" by auto
    obtain l where l: "findOldestValidLotFromList (lotHeap s) (nameGroup s vac hs) cur None = Some l"
    proof (cases "findOldestValidLotFromList (lotHeap s) (nameGroup s vac hs) cur None")
      case None
      from findOldest_result[OF this] b0 show ?thesis by auto
    qed auto
    from findOldest_result[OF l]
    have lin: "l \<in> set (nameGroup s vac hs)" "eligible (lotHeap s l) cur"
      and lmin: "\<forall>b\<in>set (nameGroup s vac hs). eligible (lotHeap s b) cur \<longrightarrow>
                   batchKey (lotHeap s l) \<le> batchKey (lotHeap s b)"
      by auto
    have pva: "processVaccineApplication usr vac hs cur pt s = applyVaccine usr l cur s"
      using nv l ne by (simp add: processVaccineApplication_def fo)
    have strict: "batchKey (lotHeap s l) < batchKey (lotHeap s b)"
      if "b \<in> set (eligibleBatches s vac cur hs)" "lot (lotHeap s b) \<noteq> lot (lotHeap s l)" for b
    proof -
      from that lmin have "batchKey (lotHeap s l) \<le> batchKey (lotHeap s b)"
        by (simp add: eligibleBatches_def)
      moreover from that have "batchKey (lotHeap s l) \<noteq> batchKey (lotHeap s b)"
        by (auto simp: batchKey_def)
      ultimately show ?thesis by simp
    qed
    show "\<exists>l \<in> set (eligibleBatches s vac cur hs).
           (\<forall>b \<in> set (eligibleBatches s vac cur hs).
              batchKey (lotHeap s l) \<le> batchKey (lotHeap s b) \<and>
              (lot (lotHeap s b) \<noteq> lot (lotHeap s l) \<longrightarrow>
                 batchKey (lotHeap s l) < batchKey (lotHeap s b))) \<and>
           processVaccineApplication usr vac hs cur pt s = applyVaccine usr l cur s \<and>
           snd (processVaccineApplication usr vac hs cur pt s) = [lot (lotHeap s l)] \<and>
           lotHeap (fst (processVaccineApplication usr vac hs cur pt s)) =
             (lotHeap s)(l := (lotHeap s l)\<lparr>dosesUsed := dosesUsed (lotHeap s l) + 1\<rparr>)"
    proof (rule bexI[of _ l], intro conjI ballI)
      show "l \<in> set (eligibleBatches s vac cur hs)"
        using lin by (simp add: eligibleBatches_def)
    next
      fix b assume "b \<in> set (eligibleBatches s vac cur hs)"
      then show "batchKey (lotHeap s l) \<le> batchKey (lotHeap s b)"
        using lmin by (simp add: eligibleBatches_def)
    next
      fix b assume "b \<in> set (eligibleBatches s vac cur hs)"
      then show "lot (lotHeap s b) \<noteq> lot (lotHeap s l) \<longrightarrow>
                 batchKey (lotHeap s l) < batchKey (lotHeap s b)"
        using strict by blast
    qed (simp_all add: pva applyVaccine_output applyVaccine_lotHeap)
  }
qed

theorem administer_allocation_witness:
  "\<not> isAlreadyVaccinated stateTwoBatches ''Alice'' ''V1'' (currentDate stateTwoBatches) HASH_SIZE \<and>
   eligibleBatches stateTwoBatches ''V1'' (currentDate stateTwoBatches) HASH_SIZE = [0, 1] \<and>
   batchKey (lotHeap stateTwoBatches 1) < batchKey (lotHeap stateTwoBatches 0) \<and>
   snd (processVaccineApplication ''Alice'' ''V1'' HASH_SIZE (currentDate stateTwoBatches) False
          stateTwoBatches) = [''B1''] \<and>
   \<not> isAlreadyVaccinated stateBatchExhausted ''Bob'' ''V1'' (currentDate stateBatchExhausted)
       HASH_SIZE \<and>
   eligibleBatches stateBatchExhausted ''V1'' (currentDate stateBatchExhausted) HASH_SIZE = [] \<and>
   processVaccineApplication ''Bob'' ''V1'' HASH_SIZE (currentDate stateBatchExhausted) False
     stateBatchExhausted = (stateBatchExhausted, [''no stock''])"
proof -
  let ?s = stateTwoBatches and ?t = stateBatchExhausted
  have h1: "\<not> isAlreadyVaccinated ?s ''Alice'' ''V1'' (currentDate ?s) HASH_SIZE"
    by (simp add: stateTwoBatches_eq run_defs)
  have h2: "eligibleBatches ?s ''V1'' (currentDate ?s) HASH_SIZE = [0, 1]"
    by (simp add: stateTwoBatches_eq eligibleBatches_def nameGroup_def eligible_def dateKey_def
        run_defs)
  have h3: "batchKey (lotHeap ?s 1) < batchKey (lotHeap ?s 0)"
    by (simp add: stateTwoBatches_eq batchKey_def dateKey_def)
  have h4: "lot (lotHeap ?s 1) = ''B1''" "lot (lotHeap ?s 0) = ''B2''"
    by (simp_all add: stateTwoBatches_eq)
  have h5: "\<not> isAlreadyVaccinated ?t ''Bob'' ''V1'' (currentDate ?t) HASH_SIZE"
    by (simp add: stateBatchExhausted_eq run_defs)
  have h6: "eligibleBatches ?t ''V1'' (currentDate ?t) HASH_SIZE = []"
    by (simp add: stateBatchExhausted_eq eligibleBatches_def nameGroup_def eligible_def dateKey_def
        run_defs)
  from administer_allocation[of ?s "''Alice''" "''V1''" "currentDate ?s" HASH_SIZE False] h1 h2
  obtain l where l: "l \<in> {0, 1}"
    "\<forall>b\<in>{0, 1}. batchKey (lotHeap ?s l) \<le> batchKey (lotHeap ?s b)"
    "snd (processVaccineApplication ''Alice'' ''V1'' HASH_SIZE (currentDate ?s) False ?s) =
       [lot (lotHeap ?s l)]"
    by auto
  have "l = 1" using l(1,2) h3 by auto
  then have c1: "snd (processVaccineApplication ''Alice'' ''V1'' HASH_SIZE (currentDate ?s) False ?s) =
       [''B1'']"
    using l(3) h4 by simp
  have c2: "processVaccineApplication ''Bob'' ''V1'' HASH_SIZE (currentDate ?t) False ?t =
       (?t, [''no stock''])"
    using administer_allocation[of ?t "''Bob''" "''V1''" "currentDate ?t" HASH_SIZE False] h5 h6
    by (simp add: msgNoStock_def)
  show ?thesis using h1 h2 h3 h5 h6 c1 c2 by simp
qed

section \<open>Cross-index consistency\<close>

subsection \<open>Lists\<close>

lemma find_distinct_key:
  "distinct (map f xs) \<Longrightarrow> a \<in> set xs \<Longrightarrow> find (\<lambda>x. f x = f a) xs = Some a"
  by (induction xs) (auto simp: image_iff)

lemma find_key_Some:
  "distinct (map f xs) \<Longrightarrow> (find (\<lambda>x. f x = k) xs = Some a) = (a \<in> set xs \<and> f a = k)"
  using find_distinct_key[of f xs a] by (auto simp: find_Some_iff)

lemma find_key_None: "(find (\<lambda>x. f x = k) xs = None) = (k \<notin> f ` set xs)"
  by (auto simp: find_None_iff)

lemma updFirst_distinct_key:
  "distinct (map f xs) \<Longrightarrow>
     updFirst (\<lambda>x. f x = k) g xs = map (\<lambda>x. if f x = k then g x else x) xs"
proof (induction xs)
  case Nil
  then show ?case by simp
next
  case (Cons x xs)
  show ?case
  proof (cases "f x = k")
    case True
    then have "k \<notin> f ` set xs" using Cons.prems by simp
    then have "\<forall>y\<in>set xs. f y \<noteq> k" by blast
    then have "map (\<lambda>x. if f x = k then g x else x) xs = xs" by (intro map_idI) auto
    then show ?thesis using True by simp
  next
    case False
    then show ?thesis using Cons by simp
  qed
qed

lemma removeFirst_remove1:
  "(\<forall>a\<in>set xs. P a \<longleftrightarrow> a = l) \<Longrightarrow> removeFirst P xs = remove1 l xs"
  by (induction xs) auto

lemma indexOf_Some:
  "indexOf P xs = Some i \<Longrightarrow> i < length xs \<and> P (xs ! i)"
  by (induction xs arbitrary: i) (auto split: if_splits)

lemma indexOf_None: "indexOf P xs = None \<longleftrightarrow> (\<forall>x\<in>set xs. \<not> P x)"
  by (induction xs) auto

lemma swapRemove_set:
  "distinct xs \<Longrightarrow> i < length xs \<Longrightarrow>
     set (swapRemove i xs) = set xs - {xs ! i} \<and> distinct (swapRemove i xs)"
proof (induction xs arbitrary: i rule: rev_induct)
  case Nil
  then show ?case by simp
next
  case (snoc x xs)
  show ?case
  proof (cases "i = length xs")
    case True
    then show ?thesis using snoc.prems by (simp add: swapRemove_def)
  next
    case False
    then have i: "i < length xs" using snoc.prems by simp
    have "swapRemove i (xs @ [x]) = xs[i := x]"
      using i by (simp add: swapRemove_def list_update_append)
    moreover have "set (xs[i := x]) = insert x (set xs - {xs ! i})"
      using i snoc.prems by (simp add: set_update_distinct)
    moreover have "distinct (xs[i := x])"
      using i snoc.prems by (simp add: distinct_list_update)
    ultimately show ?thesis using i snoc.prems by (auto simp: nth_append)
  qed
qed

lemma distinct_map_remove1: "distinct (map f xs) \<Longrightarrow> distinct (map f (remove1 x xs))"
proof (induction xs)
  case Nil
  then show ?case by simp
next
  case (Cons y ys)
  have "set (remove1 x ys) \<subseteq> set ys" by (rule set_remove1_subset)
  then have "f y \<notin> f ` set (remove1 x ys)" using Cons.prems by auto
  then show ?case using Cons by auto
qed

subsection \<open>Lookups under the invariant\<close>

lemma live_iff: "a \<in> live s \<longleftrightarrow> (\<exists>i. a \<in> set (hashTable s i))"
  by (auto simp: live_def)

lemma live_bucket:
  "bucketsOk s \<Longrightarrow> a \<in> live s \<Longrightarrow> a \<in> set (hashTable s (hashString (lotId s a) HASH_SIZE))"
  by (auto simp: bucketsOk_def live_iff)

lemma live_below_next: "bucketsOk s \<Longrightarrow> a \<in> live s \<Longrightarrow> a < nextLot s"
  by (auto simp: bucketsOk_def live_iff)

lemma live_id_inj:
  assumes "idsDistinct s" "bucketsOk s" "a \<in> live s" "b \<in> live s" "lotId s a = lotId s b"
  shows "a = b"
proof -
  let ?i = "hashString (lotId s a) HASH_SIZE"
  have a: "a \<in> set (hashTable s ?i)" and b: "b \<in> set (hashTable s ?i)"
    using assms live_bucket by metis+
  have "inj_on (lotId s) (set (hashTable s ?i))"
    using assms(1) by (simp add: idsDistinct_def distinct_map)
  then show ?thesis using a b assms(5) by (auto dest: inj_onD)
qed

lemma findVaccineByBatch_iff:
  assumes "idsDistinct s" "bucketsOk s"
  shows "(findVaccineByBatch (lotHeap s) (hashTable s) b HASH_SIZE = Some a) =
           (a \<in> live s \<and> lotId s a = b)"
proof -
  have f: "findVaccineByBatch (lotHeap s) (hashTable s) b HASH_SIZE =
             find (\<lambda>a. lotId s a = b) (hashTable s (hashString b HASH_SIZE))"
    by (simp add: findVaccineByBatch_def lotId_def)
  have d: "distinct (map (lotId s) (hashTable s (hashString b HASH_SIZE)))"
    using assms(1) by (simp add: idsDistinct_def)
  show ?thesis
    unfolding f find_key_Some[OF d] using assms(2) live_bucket[of s a]
    by (auto simp: live_iff)
qed

lemma findVaccineByBatch_None_iff:
  assumes "bucketsOk s"
  shows "(findVaccineByBatch (lotHeap s) (hashTable s) b HASH_SIZE = None) =
           (\<forall>a\<in>live s. lotId s a \<noteq> b)"
proof -
  have f: "findVaccineByBatch (lotHeap s) (hashTable s) b HASH_SIZE =
             find (\<lambda>a. lotId s a = b) (hashTable s (hashString b HASH_SIZE))"
    by (simp add: findVaccineByBatch_def lotId_def)
  show ?thesis
    unfolding f find_key_None using assms live_bucket[of s]
    by (auto simp: live_iff)
qed

lemma findVaccineByName_iff:
  assumes "namesOk s"
  shows "(findVaccineByName (nameHashTable s) n HASH_SIZE = Some e) =
           (e \<in> set (nameHashTable s (hashString n HASH_SIZE)) \<and> vni_name e = n)"
proof -
  have d: "distinct (map vni_name (nameHashTable s (hashString n HASH_SIZE)))"
    using assms by (simp add: namesOk_def)
  show ?thesis
    by (simp add: findVaccineByName_def find_key_Some[OF d])
qed

lemma findVaccineByName_None_iff:
  "(findVaccineByName (nameHashTable s) n HASH_SIZE = None) =
     (n \<notin> vni_name ` set (nameHashTable s (hashString n HASH_SIZE)))"
  by (simp add: findVaccineByName_def find_key_None)

lemma group_of_live:
  assumes "namesOk s" "groupsCover s" "a \<in> live s"
  shows "\<exists>e. findVaccineByName (nameHashTable s) (lotName s a) HASH_SIZE = Some e \<and> a \<in> set (lots e)"
  using assms by (auto simp: findVaccineByName_iff groupsCover_def)

subsection \<open>The invariant holds initially and depends only on ids and names\<close>

lemma indexConsistent_initial: "indexConsistent initialRegistry"
  by (simp add: indexConsistent_def idsDistinct_def bucketsOk_def listOk_def namesOk_def
      groupsCover_def live_def initialRegistry_def)

lemma indexConsistent_cong:
  assumes "hashTable s' = hashTable s" "nameHashTable s' = nameHashTable s"
    "vaccineList s' = vaccineList s" "nextLot s' = nextLot s"
    "\<And>a. lot (lotHeap s' a) = lot (lotHeap s a)" "\<And>a. name (lotHeap s' a) = name (lotHeap s a)"
  shows "indexConsistent s' = indexConsistent s"
proof -
  have "lotId s' = lotId s" "lotName s' = lotName s" "live s' = live s"
    using assms by (auto simp: lotId_def lotName_def live_def)
  then show ?thesis
    using assms(1-4)
    by (simp add: indexConsistent_def idsDistinct_def bucketsOk_def listOk_def namesOk_def
        groupsCover_def)
qed

subsection \<open>Register keeps the indices consistent\<close>

lemma register_state:
  assumes "vaccineCount s < maxVaccines"
    "findVaccineByBatch (lotHeap s) (hashTable s) batch HASH_SIZE = None"
    "namesOk s"
  shows "addNewVaccineToSystem batch nm vdate ds HASH_SIZE maxVaccines pt s =
    (s\<lparr>lotHeap := (lotHeap s)(nextLot s :=
           \<lparr>lot = batch, name = nm, validation = vdate, doses = ds, dosesUsed = 0,
            isRemoved = False\<rparr>),
       nextLot := Suc (nextLot s),
       hashTable := (hashTable s)
          (hashString batch HASH_SIZE := nextLot s # hashTable s (hashString batch HASH_SIZE)),
       nameHashTable := (nameHashTable s)
          (hashString nm HASH_SIZE :=
             map (\<lambda>e. if vni_name e = nm then e\<lparr>lots := lots e @ [nextLot s]\<rparr> else e)
               (withEntry nm (nameHashTable s (hashString nm HASH_SIZE)))),
       vaccineList := nextLot s # vaccineList s,
       vaccineCount := vaccineCount s + 1\<rparr>, [batch])"
proof -
  let ?C = "nameHashTable s (hashString nm HASH_SIZE)"
  have dC: "distinct (map vni_name ?C)" using assms(3) by (simp add: namesOk_def)
  show ?thesis
  proof (cases "findVaccineByName (nameHashTable s) nm HASH_SIZE")
    case None
    then have nin: "nm \<notin> vni_name ` set ?C" by (simp add: findVaccineByName_None_iff)
    then have "map (\<lambda>e. if vni_name e = nm then e\<lparr>lots := lots e @ [nextLot s]\<rparr> else e) ?C = ?C"
      by (intro map_idI) auto
    then show ?thesis
      using assms(1,2) None nin dC
      by (simp add: addNewVaccineToSystem_def createVaccineLot_def addVaccineLotToHash_def
          addVaccineLotToNameIndex_def findOrCreateNameIndexEntry_def Let_def withEntry_def)
  next
    case (Some e)
    then have "nm \<in> vni_name ` set ?C"
      using assms(3) by (auto simp: findVaccineByName_iff)
    then show ?thesis
      using assms(1,2) Some dC
      by (simp add: addNewVaccineToSystem_def createVaccineLot_def addVaccineLotToHash_def
          addVaccineLotToNameIndex_def findOrCreateNameIndexEntry_def Let_def withEntry_def
          updFirst_distinct_key)
  qed
qed

lemma register_consistent:
  assumes ic: "indexConsistent s"
    and none: "findVaccineByBatch (lotHeap s) (hashTable s) batch HASH_SIZE = None"
    and cnt: "vaccineCount s < maxVaccines"
  shows "indexConsistent (fst (addNewVaccineToSystem batch nm vdate ds HASH_SIZE maxVaccines pt s))"
proof -
  from ic have idd: "idsDistinct s" and bo: "bucketsOk s" and lo: "listOk s"
    and no: "namesOk s" and gc: "groupsCover s"
    by (simp_all add: indexConsistent_def)
  define n where "n = nextLot s"
  define hb where "hb = hashString batch HASH_SIZE"
  define hn where "hn = hashString nm HASH_SIZE"
  define upd :: "VaccineNameIndex \<Rightarrow> VaccineNameIndex"
    where "upd = (\<lambda>e. if vni_name e = nm then e\<lparr>lots := lots e @ [n]\<rparr> else e)"
  define C1 where "C1 = withEntry nm (nameHashTable s hn)"
  define s' where "s' = fst (addNewVaccineToSystem batch nm vdate ds HASH_SIZE maxVaccines pt s)"
  have heap: "lotHeap s' = (lotHeap s)(n :=
           \<lparr>lot = batch, name = nm, validation = vdate, doses = ds, dosesUsed = 0,
            isRemoved = False\<rparr>)"
    and nxt: "nextLot s' = Suc n"
    and tbl: "hashTable s' = (hashTable s)(hb := n # hashTable s hb)"
    and ntbl: "nameHashTable s' = (nameHashTable s)(hn := map upd C1)"
    and vl: "vaccineList s' = n # vaccineList s"
    unfolding s'_def register_state[OF cnt none no] n_def hb_def hn_def upd_def C1_def
    by simp_all
  have n_fresh: "n \<notin> live s" using live_below_next[OF bo, of n] by (auto simp: n_def)
  have id_old: "lotId s' a = lotId s a" if "a \<in> live s" for a
    using that n_fresh by (auto simp: lotId_def heap)
  have nm_old: "lotName s' a = lotName s a" if "a \<in> live s" for a
    using that n_fresh by (auto simp: lotName_def heap)
  have id_new: "lotId s' n = batch" and nm_new: "lotName s' n = nm"
    by (simp_all add: lotId_def lotName_def heap)
  have live': "live s' = insert n (live s)"
    by (auto simp: live_def tbl split: if_splits)
  have no_batch: "\<forall>a\<in>live s. lotId s a \<noteq> batch"
    using none by (simp add: findVaccineByBatch_None_iff[OF bo])
  have chain_live: "set (hashTable s i) \<subseteq> live s" for i by (auto simp: live_def)
  have 1: "idsDistinct s'"
    unfolding idsDistinct_def
  proof
    fix i
    have old: "map (lotId s') (hashTable s j) = map (lotId s) (hashTable s j)" for j
      using chain_live[of j] by (intro map_cong) (auto simp: id_old)
    have old_img: "lotId s' ` set (hashTable s j) = lotId s ` set (hashTable s j)" for j
      using old[of j] by (metis set_map)
    have "distinct (map (lotId s) (hashTable s j))" for j using idd by (simp add: idsDistinct_def)
    moreover have "batch \<notin> lotId s ` set (hashTable s j)" for j
      using no_batch chain_live[of j] by auto
    ultimately show "distinct (map (lotId s') (hashTable s' i))"
      by (simp add: tbl old old_img id_new)
  qed
  have 2: "bucketsOk s'"
    unfolding bucketsOk_def
  proof (intro allI ballI)
    fix i a assume a: "a \<in> set (hashTable s' i)"
    show "hashString (lotId s' a) HASH_SIZE = i \<and> a < nextLot s'"
    proof (cases "a = n")
      case True
      have "i = hb"
      proof (rule ccontr)
        assume "i \<noteq> hb"
        then have "n \<in> set (hashTable s i)" using a True by (simp add: tbl)
        then show False using n_fresh chain_live by auto
      qed
      then show ?thesis using True by (simp add: id_new hb_def nxt)
    next
      case False
      then have ai: "a \<in> set (hashTable s i)" using a by (auto simp: tbl split: if_splits)
      then have al: "a \<in> live s" using chain_live by auto
      have "hashString (lotId s a) HASH_SIZE = i \<and> a < nextLot s"
        using ai bo by (simp add: bucketsOk_def)
      then show ?thesis using al by (simp add: id_old nxt n_def)
    qed
  qed
  have 3: "listOk s'"
    using lo n_fresh by (auto simp: listOk_def vl live')
  have C1_props: "distinct (map vni_name C1)"
    "\<forall>e\<in>set C1. hashString (vni_name e) HASH_SIZE = hn \<and> distinct (lots e) \<and>
        (\<forall>a\<in>set (lots e). lotName s a = vni_name e \<and> a \<in> live s)"
    "nm \<in> vni_name ` set C1" "set (nameHashTable s hn) \<subseteq> set C1"
    using no by (auto simp: C1_def withEntry_def namesOk_def hn_def)
  have upd_name: "vni_name (upd e) = vni_name e" for e by (simp add: upd_def)
  have 4: "namesOk s'"
    unfolding namesOk_def
  proof (intro allI conjI)
    fix i
    show "distinct (map vni_name (nameHashTable s' i))"
      using C1_props(1) no by (auto simp: ntbl namesOk_def comp_def upd_name)
  next
    fix i
    show "\<forall>e\<in>set (nameHashTable s' i).
            hashString (vni_name e) HASH_SIZE = i \<and> distinct (lots e) \<and>
            (\<forall>a\<in>set (lots e). lotName s' a = vni_name e \<and> a \<in> live s')"
    proof
    fix e assume e: "e \<in> set (nameHashTable s' i)"
    have "\<exists>e0. e = (if i = hn then upd e0 else e0) \<and> hashString (vni_name e0) HASH_SIZE = i \<and>
            distinct (lots e0) \<and> (\<forall>a\<in>set (lots e0). lotName s a = vni_name e0 \<and> a \<in> live s)"
    proof (cases "i = hn")
      case True
      then obtain e0 where "e0 \<in> set C1" "e = upd e0" using e by (auto simp: ntbl)
      then show ?thesis using C1_props(2) True by auto
    next
      case False
      then have "e \<in> set (nameHashTable s i)" using e by (simp add: ntbl)
      then show ?thesis using no False by (auto simp: namesOk_def)
    qed
    then obtain e0 where e0: "e = (if i = hn then upd e0 else e0)"
      "hashString (vni_name e0) HASH_SIZE = i" "distinct (lots e0)"
      "\<forall>a\<in>set (lots e0). lotName s a = vni_name e0 \<and> a \<in> live s"
      by blast
    have nn: "n \<notin> set (lots e0)" using e0(4) n_fresh by auto
    have a: "hashString (vni_name e) HASH_SIZE = i" using e0 by (auto simp: upd_def hn_def)
    have b: "distinct (lots e)" using e0 nn by (simp add: upd_def)
    have c: "\<forall>a\<in>set (lots e). lotName s' a = vni_name e \<and> a \<in> live s'"
      using e0 by (auto simp: upd_def live' nm_old nm_new)
    show "hashString (vni_name e) HASH_SIZE = i \<and> distinct (lots e) \<and>
            (\<forall>a\<in>set (lots e). lotName s' a = vni_name e \<and> a \<in> live s')"
      using a b c by blast
    qed
  qed
  have 5: "groupsCover s'"
    unfolding groupsCover_def
  proof
    fix a assume a: "a \<in> live s'"
    show "\<exists>e\<in>set (nameHashTable s' (hashString (lotName s' a) HASH_SIZE)).
            vni_name e = lotName s' a \<and> a \<in> set (lots e)"
    proof (cases "a = n")
      case True
      from C1_props(3) obtain e0 where "e0 \<in> set C1" "vni_name e0 = nm" by auto
      then have "upd e0 \<in> set (nameHashTable s' hn) \<and> vni_name (upd e0) = nm \<and>
                   n \<in> set (lots (upd e0))"
        by (auto simp: ntbl upd_def)
      then show ?thesis using True by (auto simp: nm_new hn_def[symmetric])
    next
      case False
      then have al: "a \<in> live s" using a by (simp add: live')
      then obtain e0 where e0: "e0 \<in> set (nameHashTable s (hashString (lotName s a) HASH_SIZE))"
        "vni_name e0 = lotName s a" "a \<in> set (lots e0)"
        using gc by (auto simp: groupsCover_def)
      show ?thesis
      proof (cases "hashString (lotName s a) HASH_SIZE = hn")
        case True
        then have "e0 \<in> set C1" using e0(1) C1_props(4) by auto
        then have "upd e0 \<in> set (nameHashTable s' hn)" by (simp add: ntbl)
        moreover have "vni_name (upd e0) = lotName s a \<and> a \<in> set (lots (upd e0))"
          using e0 by (simp add: upd_def)
        ultimately show ?thesis using True al by (auto simp: nm_old)
      next
        case False
        then show ?thesis using e0 al by (auto simp: nm_old ntbl)
      qed
    qed
  qed
  show ?thesis
    using 1 2 3 4 5 by (simp add: indexConsistent_def s'_def)
qed

subsection \<open>Retire keeps the indices consistent\<close>

lemma purge_state:
  assumes ic: "indexConsistent s"
    and found: "findVaccineByBatch (lotHeap s) (hashTable s) batch HASH_SIZE = Some l"
  shows "\<exists>e0 i. findVaccineByName (nameHashTable s) (lotName s l) HASH_SIZE = Some e0 \<and>
      i < length (lots e0) \<and> lots e0 ! i = l \<and>
      handleUnusedVaccineLot batch HASH_SIZE s =
        s\<lparr>nameHashTable := (nameHashTable s)
            (hashString (lotName s l) HASH_SIZE :=
               map (\<lambda>e. if vni_name e = lotName s l then e\<lparr>lots := swapRemove i (lots e)\<rparr> else e)
                 (nameHashTable s (hashString (lotName s l) HASH_SIZE))),
          vaccineList := remove1 l (vaccineList s),
          hashTable := (hashTable s)
            (hashString batch HASH_SIZE := remove1 l (hashTable s (hashString batch HASH_SIZE)))\<rparr>"
proof -
  from ic have idd: "idsDistinct s" and bo: "bucketsOk s" and lo: "listOk s"
    and no: "namesOk s" and gc: "groupsCover s"
    by (simp_all add: indexConsistent_def)
  from found have l: "l \<in> live s" "lotId s l = batch"
    by (simp_all add: findVaccineByBatch_iff[OF idd bo])
  have uniq: "(lotId s a = batch) = (a = l)" if "a \<in> live s" for a
    using live_id_inj[OF idd bo that l(1)] l(2) by auto
  from group_of_live[OF no gc l(1)] obtain e0 where
    e0: "findVaccineByName (nameHashTable s) (lotName s l) HASH_SIZE = Some e0" "l \<in> set (lots e0)"
    by blast
  then have e0in: "e0 \<in> set (nameHashTable s (hashString (lotName s l) HASH_SIZE))"
    by (simp add: findVaccineByName_iff[OF no])
  then have lots_live: "set (lots e0) \<subseteq> live s" using no by (auto simp: namesOk_def)
  obtain i where i: "indexOf (\<lambda>a. lot (lotHeap s a) = batch) (lots e0) = Some i"
    using e0(2) l(2) by (cases "indexOf (\<lambda>a. lot (lotHeap s a) = batch) (lots e0)")
      (auto simp: indexOf_None lotId_def)
  from indexOf_Some[OF i] have ilen: "i < length (lots e0)"
    and "lotId s (lots e0 ! i) = batch" by (simp_all add: lotId_def)
  then have il: "lots e0 ! i = l" using uniq lots_live by (metis nth_mem subsetD)
  have dn: "distinct (map vni_name (nameHashTable s (hashString (lotName s l) HASH_SIZE)))"
    using no by (simp add: namesOk_def)
  have rl: "removeFirst (\<lambda>a. lot (lotHeap s a) = batch) (vaccineList s) = remove1 l (vaccineList s)"
    using lo uniq by (intro removeFirst_remove1) (auto simp: listOk_def lotId_def)
  have rh: "removeFirst (\<lambda>a. lot (lotHeap s a) = batch) (hashTable s j) = remove1 l (hashTable s j)"
    for j
    using uniq by (intro removeFirst_remove1) (auto simp: live_iff lotId_def)
  have "handleUnusedVaccineLot batch HASH_SIZE s =
        s\<lparr>nameHashTable := (nameHashTable s)
            (hashString (lotName s l) HASH_SIZE :=
               map (\<lambda>e. if vni_name e = lotName s l then e\<lparr>lots := swapRemove i (lots e)\<rparr> else e)
                 (nameHashTable s (hashString (lotName s l) HASH_SIZE))),
          vaccineList := remove1 l (vaccineList s),
          hashTable := (hashTable s)
            (hashString batch HASH_SIZE := remove1 l (hashTable s (hashString batch HASH_SIZE)))\<rparr>"
    using found e0(1) i
    by (simp add: handleUnusedVaccineLot_def removeVaccineFromNameIndex_def
        removeVaccineFromList_def removeVaccineFromHash_def hashBatch_def hashString_def[symmetric]
        Let_def lotName_def[symmetric] updFirst_distinct_key[OF dn] rl rh)
  then show ?thesis using e0(1) ilen il by blast
qed

lemma purge_consistent:
  assumes ic: "indexConsistent s"
    and found: "findVaccineByBatch (lotHeap s) (hashTable s) batch HASH_SIZE = Some l"
  shows "indexConsistent (handleUnusedVaccineLot batch HASH_SIZE s) \<and>
         live (handleUnusedVaccineLot batch HASH_SIZE s) = live s - {l} \<and>
         lotHeap (handleUnusedVaccineLot batch HASH_SIZE s) = lotHeap s \<and>
         nextLot (handleUnusedVaccineLot batch HASH_SIZE s) = nextLot s"
proof -
  from ic have idd: "idsDistinct s" and bo: "bucketsOk s" and lo: "listOk s"
    and no: "namesOk s" and gc: "groupsCover s"
    by (simp_all add: indexConsistent_def)
  from found have l: "l \<in> live s" "lotId s l = batch"
    by (simp_all add: findVaccineByBatch_iff[OF idd bo])
  define nm where "nm = lotName s l"
  define hn where "hn = hashString nm HASH_SIZE"
  define hb where "hb = hashString batch HASH_SIZE"
  define s' where "s' = handleUnusedVaccineLot batch HASH_SIZE s"
  from purge_state[OF ic found] obtain e0 i where
    e0: "findVaccineByName (nameHashTable s) nm HASH_SIZE = Some e0"
    and i: "i < length (lots e0)" "lots e0 ! i = l"
    and st: "s' = s\<lparr>nameHashTable := (nameHashTable s)
            (hn := map (\<lambda>e. if vni_name e = nm then e\<lparr>lots := swapRemove i (lots e)\<rparr> else e)
                 (nameHashTable s hn)),
          vaccineList := remove1 l (vaccineList s),
          hashTable := (hashTable s)(hb := remove1 l (hashTable s hb))\<rparr>"
    unfolding nm_def hn_def hb_def s'_def by blast
  define upd :: "VaccineNameIndex \<Rightarrow> VaccineNameIndex"
    where "upd = (\<lambda>e. if vni_name e = nm then e\<lparr>lots := swapRemove i (lots e)\<rparr> else e)"
  have heap: "lotHeap s' = lotHeap s" and nxt: "nextLot s' = nextLot s"
    and tbl: "hashTable s' = (hashTable s)(hb := remove1 l (hashTable s hb))"
    and ntbl: "nameHashTable s' = (nameHashTable s)(hn := map upd (nameHashTable s hn))"
    and vl: "vaccineList s' = remove1 l (vaccineList s)"
    by (simp_all add: st upd_def)
  have ids: "lotId s' = lotId s" and nms: "lotName s' = lotName s"
    by (auto simp: lotId_def lotName_def heap)
  have e0in: "e0 \<in> set (nameHashTable s hn)" "vni_name e0 = nm"
    using e0 by (simp_all add: findVaccineByName_iff[OF no] hn_def)
  have dchain: "distinct (hashTable s j)" for j
    using idd by (auto simp: idsDistinct_def distinct_map)
  have l_bucket: "l \<in> set (hashTable s j) \<longleftrightarrow> j = hb" for j
    using bo l live_bucket[OF bo l(1)] by (auto simp: bucketsOk_def hb_def)
  have live': "live s' = live s - {l}"
  proof -
    have "set (hashTable s' j) = set (hashTable s j) - {l}" for j
      using dchain[of j] l_bucket[of j] by (auto simp: tbl)
    then show ?thesis by (auto simp: live_def)
  qed
  have 1: "idsDistinct s'"
    using idd by (auto simp: idsDistinct_def tbl ids distinct_map_remove1)
  have 2: "bucketsOk s'"
    using bo by (auto simp: bucketsOk_def tbl ids nxt dest: notin_set_remove1)
  have 3: "listOk s'"
    using lo by (auto simp: listOk_def vl live')
  have e0_props: "distinct (lots e0)" "\<forall>a\<in>set (lots e0). lotName s a = nm \<and> a \<in> live s"
    using no e0in by (auto simp: namesOk_def)
  have sr: "set (swapRemove i (lots e0)) = set (lots e0) - {l}" "distinct (swapRemove i (lots e0))"
    using swapRemove_set[OF e0_props(1) i(1)] i(2) by auto
  have name_unique: "e = e0" if "e \<in> set (nameHashTable s j)" "vni_name e = nm" for e j
  proof -
    have "j = hn" using no that by (auto simp: namesOk_def hn_def)
    moreover have "inj_on vni_name (set (nameHashTable s hn))"
      using no by (simp add: namesOk_def distinct_map)
    ultimately show ?thesis using that e0in by (auto dest: inj_onD)
  qed
  have upd_name: "vni_name (upd e) = vni_name e" for e by (simp add: upd_def)
  have entry': "\<exists>e1. e = (if j = hn then upd e1 else e1) \<and> e1 \<in> set (nameHashTable s j)"
    if "e \<in> set (nameHashTable s' j)" for e j
    using that by (auto simp: ntbl split: if_splits)
  have upd_lots: "set (lots (upd e)) = set (lots e) - {l} \<and> distinct (lots (upd e))"
    if "e \<in> set (nameHashTable s j)" for e j
  proof (cases "vni_name e = nm")
    case True
    then have "e = e0" using that name_unique by blast
    then show ?thesis using sr True by (simp add: upd_def)
  next
    case False
    have "l \<notin> set (lots e)"
    proof
      assume "l \<in> set (lots e)"
      then have "lotName s l = vni_name e" using no that by (auto simp: namesOk_def)
      then show False using False by (simp add: nm_def)
    qed
    moreover have "distinct (lots e)" using no that by (auto simp: namesOk_def)
    ultimately show ?thesis using False by (simp add: upd_def)
  qed
  have other_lots: "l \<notin> set (lots e)" if "e \<in> set (nameHashTable s j)" "j \<noteq> hn" for e j
  proof
    assume "l \<in> set (lots e)"
    then have "lotName s l = vni_name e" "hashString (vni_name e) HASH_SIZE = j"
      using no that by (auto simp: namesOk_def)
    then show False using that(2) by (simp add: nm_def hn_def)
  qed
  have 4: "namesOk s'"
    unfolding namesOk_def
  proof (intro allI conjI)
    fix j
    show "distinct (map vni_name (nameHashTable s' j))"
      using no by (auto simp: ntbl namesOk_def comp_def upd_name)
  next
    fix j
    show "\<forall>e\<in>set (nameHashTable s' j).
            hashString (vni_name e) HASH_SIZE = j \<and> distinct (lots e) \<and>
            (\<forall>a\<in>set (lots e). lotName s' a = vni_name e \<and> a \<in> live s')"
    proof
      fix e assume "e \<in> set (nameHashTable s' j)"
      from entry'[OF this] obtain e1 where e1: "e = (if j = hn then upd e1 else e1)"
        "e1 \<in> set (nameHashTable s j)" by blast
      have p: "hashString (vni_name e1) HASH_SIZE = j" "distinct (lots e1)"
        "\<forall>a\<in>set (lots e1). lotName s a = vni_name e1 \<and> a \<in> live s"
        using no e1(2) by (auto simp: namesOk_def)
      show "hashString (vni_name e) HASH_SIZE = j \<and> distinct (lots e) \<and>
            (\<forall>a\<in>set (lots e). lotName s' a = vni_name e \<and> a \<in> live s')"
      proof (cases "j = hn")
        case True
        then show ?thesis
          using e1 p upd_lots[OF e1(2)] by (auto simp: upd_name nms live')
      next
        case False
        then show ?thesis
          using e1 p other_lots[OF e1(2) False] by (auto simp: nms live')
      qed
    qed
  qed
  have 5: "groupsCover s'"
    unfolding groupsCover_def
  proof
    fix a assume "a \<in> live s'"
    then have a: "a \<in> live s" "a \<noteq> l" by (simp_all add: live')
    then obtain e1 where e1: "e1 \<in> set (nameHashTable s (hashString (lotName s a) HASH_SIZE))"
      "vni_name e1 = lotName s a" "a \<in> set (lots e1)"
      using gc by (auto simp: groupsCover_def)
    show "\<exists>e\<in>set (nameHashTable s' (hashString (lotName s' a) HASH_SIZE)).
            vni_name e = lotName s' a \<and> a \<in> set (lots e)"
    proof (cases "hashString (lotName s a) HASH_SIZE = hn")
      case True
      then have "upd e1 \<in> set (nameHashTable s' hn)" using e1(1) by (simp add: ntbl)
      moreover have "a \<in> set (lots (upd e1))" using upd_lots[OF e1(1)] e1(3) a(2) by simp
      ultimately show ?thesis using True e1(2)
        by (intro bexI[of _ "upd e1"]) (simp_all add: nms upd_name)
    next
      case False
      then show ?thesis using e1 by (auto simp: nms ntbl)
    qed
  qed
  show ?thesis
    using 1 2 3 4 5 live' heap nxt by (simp add: indexConsistent_def s'_def)
qed

subsection \<open>Every command keeps the indices consistent\<close>

lemma addInoculationToUserIndex_batches [simp]:
  "hashTable (addInoculationToUserIndex i sz s) = hashTable s"
  "nameHashTable (addInoculationToUserIndex i sz s) = nameHashTable s"
  "vaccineList (addInoculationToUserIndex i sz s) = vaccineList s"
  "nextLot (addInoculationToUserIndex i sz s) = nextLot s"
  "vaccineCount (addInoculationToUserIndex i sz s) = vaccineCount s"
  "currentDate (addInoculationToUserIndex i sz s) = currentDate s"
  by (simp_all add: addInoculationToUserIndex_def findOrCreateUserIndexEntry_def Let_def
      split: option.splits)

lemma applyVaccine_batches:
  "hashTable (fst (applyVaccine usr l cur s)) = hashTable s"
  "nameHashTable (fst (applyVaccine usr l cur s)) = nameHashTable s"
  "vaccineList (fst (applyVaccine usr l cur s)) = vaccineList s"
  "nextLot (fst (applyVaccine usr l cur s)) = nextLot s"
  "vaccineCount (fst (applyVaccine usr l cur s)) = vaccineCount s"
  "currentDate (fst (applyVaccine usr l cur s)) = currentDate s"
  by (simp_all add: applyVaccine_def createInoculation_def Let_def)

lemma commandC_consistent:
  "indexConsistent s \<Longrightarrow> indexConsistent (fst (commandC args HASH_SIZE mx cur pt s))"
  using register_consistent[of s _ mx _ _ _ pt]
  by (auto simp: commandC_def addNewVaccineToSystem_def[where maxVaccines = mx]
      split: option.splits prod.splits if_splits)

lemma commandA_consistent:
  "indexConsistent s \<Longrightarrow> indexConsistent (fst (commandA args hs cur pt s))"
proof -
  assume ic: "indexConsistent s"
  have "indexConsistent (fst (applyVaccine usr l cur s))" for usr l
    using ic
    by (subst indexConsistent_cong[of _ s]) (simp_all add: applyVaccine_batches applyVaccine_lotHeap)
  then show ?thesis
    using ic by (auto simp: commandA_def processVaccineApplication_def split: option.splits)
qed

lemma commandR_consistent:
  "indexConsistent s \<Longrightarrow> indexConsistent (fst (commandR args HASH_SIZE pt s))"
proof -
  assume ic: "indexConsistent s"
  have "indexConsistent (handleUsedVaccineLot l s)" for l
    using ic
    by (subst indexConsistent_cong[of _ s]) (simp_all add: handleUsedVaccineLot_def)
  then show ?thesis
    using ic purge_consistent[OF ic]
    by (auto simp: commandR_def split: option.splits)
qed

lemma commandD_consistent:
  "indexConsistent s \<Longrightarrow> indexConsistent (fst (commandD args hs cur pt s))"
  using commandD_batchStore[of args hs cur pt s]
  by (subst indexConsistent_cong[of _ s]) (simp_all add: batchStore_def)

lemma commandT_consistent:
  "indexConsistent s \<Longrightarrow> indexConsistent (fst (commandT args pt s))"
  by (subst indexConsistent_cong[of _ s])
    (auto simp: commandT_def split: option.splits)

lemma handleCommand_consistent:
  "indexConsistent s \<Longrightarrow> indexConsistent (fst (handleCommand cmd args pt s))"
  by (simp add: handleCommand_def commandC_consistent commandA_consistent commandR_consistent
      commandD_consistent commandT_consistent)

lemma processCommands_consistent:
  "indexConsistent s \<Longrightarrow> indexConsistent (fst (processCommands pt cmds s))"
proof (induction cmds arbitrary: s)
  case Nil
  then show ?case by simp
next
  case (Cons c cs)
  have "indexConsistent (fst (handleCommand (hd c) (dropWhile isspace (tl c)) pt s))"
    using Cons.prems by (rule handleCommand_consistent)
  from Cons.IH[OF this] Cons.IH[OF Cons.prems] Cons.prems show ?case
    by (auto split: prod.splits)
qed

lemma reachable_consistent: "indexConsistent (fst (processCommands pt cmds initialRegistry))"
  by (rule processCommands_consistent[OF indexConsistent_initial])

subsection \<open>A frozen lot is never written again\<close>

lemma findOldestValidLot_eligible:
  "findOldestValidLot s vac cur hs = Some l \<Longrightarrow> eligible (lotHeap s l) cur"
  by (auto simp: findOldestValidLot_def split: option.splits if_splits
      dest!: findOldest_result)

lemma frozen_never_selected: "isRemoved (lotHeap s l) \<Longrightarrow> findOldestValidLot s vac cur hs \<noteq> Some l"
  using findOldestValidLot_eligible[of s vac cur hs l] by (auto simp: eligible_def)

lemma handleCommand_frozen:
  assumes "frozenLot s l"
  shows "lotHeap (fst (handleCommand cmd args pt s)) l = lotHeap s l \<and>
         nextLot s \<le> nextLot (fst (handleCommand cmd args pt s))"
proof -
  have c: "lotHeap (fst (commandC args hs mx cur pt s)) l = lotHeap s l \<and>
           nextLot s \<le> nextLot (fst (commandC args hs mx cur pt s))" for hs mx cur
    using assms
    by (auto simp: commandC_def addNewVaccineToSystem_def createVaccineLot_def
        addVaccineLotToHash_def addVaccineLotToNameIndex_def findOrCreateNameIndexEntry_def
        Let_def frozenLot_def split: option.splits)
  have a: "lotHeap (fst (commandA args hs cur pt s)) l = lotHeap s l \<and>
           nextLot s \<le> nextLot (fst (commandA args hs cur pt s))" for hs cur
    using assms frozen_never_selected[of s l]
    by (auto simp: commandA_def processVaccineApplication_def applyVaccine_lotHeap
        applyVaccine_batches frozenLot_def split: option.splits)
  have r: "lotHeap (fst (commandR args hs pt s)) l = lotHeap s l \<and>
           nextLot s \<le> nextLot (fst (commandR args hs pt s))" for hs
    using assms
    by (auto simp: commandR_def handleUsedVaccineLot_def handleUnusedVaccineLot_def
        removeVaccineFromHash_def removeVaccineFromList_def removeVaccineFromNameIndex_def
        Let_def frozenLot_def split: option.splits)
  have d: "lotHeap (fst (commandD args hs cur pt s)) l = lotHeap s l \<and>
           nextLot s \<le> nextLot (fst (commandD args hs cur pt s))" for hs cur
    using commandD_batchStore[of args hs cur pt s] by (simp add: batchStore_def)
  have t: "lotHeap (fst (commandT args pt s)) l = lotHeap s l \<and>
           nextLot s \<le> nextLot (fst (commandT args pt s))"
    by (auto simp: commandT_def split: option.splits)
  show ?thesis using c a r d t by (simp add: handleCommand_def)
qed

lemma processCommands_frozen:
  "frozenLot s l \<Longrightarrow>
     lotHeap (fst (processCommands pt cmds s)) l = lotHeap s l \<and>
     frozenLot (fst (processCommands pt cmds s)) l"
proof (induction cmds arbitrary: s)
  case Nil
  then show ?case by simp
next
  case (Cons c cs)
  let ?s1 = "fst (handleCommand (hd c) (dropWhile isspace (tl c)) pt s)"
  from handleCommand_frozen[OF Cons.prems]
  have h: "lotHeap ?s1 l = lotHeap s l" "nextLot s \<le> nextLot ?s1" by auto
  then have f1: "frozenLot ?s1 l" using Cons.prems by (auto simp: frozenLot_def)
  from Cons.IH[OF f1] Cons.IH[OF Cons.prems] Cons.prems h show ?case
    by (auto split: prod.splits)
qed

section \<open>Listing all batches\<close>

subsection \<open>The sort, on the segment it is given\<close>

lemma swapVaccines_same: "swapVaccines arr a a = arr"
  by (simp add: swapVaccines_def)

lemma swapVaccines_decomp:
  assumes "a = int (length X)" "b = int (length X + 1 + length Y)"
  shows "swapVaccines (X @ u # Y @ v # Z) a b = X @ v # Y @ u # Z"
proof -
  have b: "nat b = length (X @ u # Y)" using assms by simp
  have 1: "(X @ u # Y @ v # Z) ! nat b = v"
    unfolding b using nth_append_length[of "X @ u # Y" v Z] by simp
  have 2: "(X @ u # Y @ v # Z) ! nat a = u"
    using assms by simp
  have 3: "(X @ u # Y @ v # Z)[nat a := v] = X @ v # Y @ v # Z"
    using assms by simp
  have 4: "(X @ v # Y @ v # Z)[nat b := u] = X @ v # Y @ u # Z"
    unfolding b using list_update_length[of "X @ v # Y" v Z u] by simp
  show ?thesis by (simp only: swapVaccines_def 1 2 3 4)
qed

lemma partitionLoop_spec:
  assumes "length P = nat low" "0 \<le> low"
    "\<forall>a\<in>set A. batchKey (h a) \<le> batchKey (h pivot)"
    "\<forall>b\<in>set B. batchKey (h pivot) < batchKey (h b)"
  shows "\<exists>A' B'.
     partitionLoop h pivot (low + int (length A + length B + length R))
       (P @ A @ B @ R @ pivot # T) (low + int (length A) - 1) (low + int (length A + length B)) =
       (P @ A' @ B' @ pivot # T, low + int (length A') - 1) \<and>
     mset (A' @ B') = mset (A @ B @ R) \<and>
     (\<forall>a\<in>set A'. batchKey (h a) \<le> batchKey (h pivot)) \<and>
     (\<forall>b\<in>set B'. batchKey (h pivot) < batchKey (h b))"
  using assms(3,4)
proof (induction R arbitrary: A B)
  case Nil
  then show ?case
    by (intro exI[of _ A] exI[of _ B]) (simp add: partitionLoop.simps)
next
  case (Cons r R)
  let ?arr = "P @ A @ B @ (r # R) @ pivot # T"
  let ?high = "low + int (length A + length B + length (r # R))"
  let ?i = "low + int (length A) - 1"
  let ?j = "low + int (length A + length B)"
  have j: "nat ?j = length (P @ A @ B)" using assms(1,2) by simp
  have rj: "?arr ! nat ?j = r"
    unfolding j using nth_append_length[of "P @ A @ B" r "R @ pivot # T"] by simp
  have cond: "?j \<le> ?high - 1" by simp
  show ?case
  proof (cases "compareVaccines (h r) (h pivot) \<le> 0")
    case True
    then have rle: "batchKey (h r) \<le> batchKey (h pivot)" by (simp add: compareVaccines_le)
    have step: "partitionLoop h pivot ?high ?arr ?i ?j =
       partitionLoop h pivot ?high (swapVaccines ?arr (?i + 1) ?j) (?i + 1) (?j + 1)"
      using True cond rj by (subst partitionLoop.simps) simp
    show ?thesis
    proof (cases B)
      case Nil
      have sw: "swapVaccines ?arr (?i + 1) ?j = P @ (A @ [r]) @ [] @ R @ pivot # T"
        using Nil by (simp add: swapVaccines_same)
      have A': "\<forall>a\<in>set (A @ [r]). batchKey (h a) \<le> batchKey (h pivot)"
        using Cons.prems(1) rle by simp
      from Cons.IH[OF A', of "[]"] obtain A' B' where
        "partitionLoop h pivot (low + int (length (A @ [r]) + length ([]::addr list) + length R))
           (P @ (A @ [r]) @ [] @ R @ pivot # T) (low + int (length (A @ [r])) - 1)
           (low + int (length (A @ [r]) + length ([]::addr list))) =
           (P @ A' @ B' @ pivot # T, low + int (length A') - 1)"
        "mset (A' @ B') = mset ((A @ [r]) @ [] @ R)"
        "\<forall>a\<in>set A'. batchKey (h a) \<le> batchKey (h pivot)"
        "\<forall>b\<in>set B'. batchKey (h pivot) < batchKey (h b)"
        by auto
      then show ?thesis
        unfolding step sw using Nil
        by (intro exI[of _ A'] exI[of _ B']) (simp add: add.commute add.left_commute)
    next
      case (Cons b B0)
      have sw: "swapVaccines ?arr (?i + 1) ?j = P @ (A @ [r]) @ (B0 @ [b]) @ R @ pivot # T"
        using swapVaccines_decomp[of "?i + 1" "P @ A" ?j B0 b r "R @ pivot # T"] Cons assms(1,2)
        by simp
      have A': "\<forall>a\<in>set (A @ [r]). batchKey (h a) \<le> batchKey (h pivot)"
        using Cons.prems(1) rle by simp
      have B': "\<forall>x\<in>set (B0 @ [b]). batchKey (h pivot) < batchKey (h x)"
        using Cons.prems(2) Cons by simp
      from Cons.IH[OF A' B'] obtain A' B' where
        "partitionLoop h pivot (low + int (length (A @ [r]) + length (B0 @ [b]) + length R))
           (P @ (A @ [r]) @ (B0 @ [b]) @ R @ pivot # T) (low + int (length (A @ [r])) - 1)
           (low + int (length (A @ [r]) + length (B0 @ [b]))) =
           (P @ A' @ B' @ pivot # T, low + int (length A') - 1)"
        "mset (A' @ B') = mset ((A @ [r]) @ (B0 @ [b]) @ R)"
        "\<forall>a\<in>set A'. batchKey (h a) \<le> batchKey (h pivot)"
        "\<forall>b\<in>set B'. batchKey (h pivot) < batchKey (h b)"
        by auto
      then show ?thesis
        unfolding step sw using Cons
        by (intro exI[of _ A'] exI[of _ B']) (simp add: add.commute add.left_commute)
    qed
  next
    case False
    then have rgt: "batchKey (h pivot) < batchKey (h r)" by (simp add: compareVaccines_le)
    have step: "partitionLoop h pivot ?high ?arr ?i ?j =
       partitionLoop h pivot ?high ?arr ?i (?j + 1)"
      using False cond rj by (subst partitionLoop.simps) simp
    have B': "\<forall>x\<in>set (B @ [r]). batchKey (h pivot) < batchKey (h x)"
      using Cons.prems(2) rgt by simp
    from Cons.IH[OF Cons.prems(1) B'] obtain A' B' where
      "partitionLoop h pivot (low + int (length A + length (B @ [r]) + length R))
         (P @ A @ (B @ [r]) @ R @ pivot # T) (low + int (length A) - 1)
         (low + int (length A + length (B @ [r]))) =
         (P @ A' @ B' @ pivot # T, low + int (length A') - 1)"
      "mset (A' @ B') = mset (A @ (B @ [r]) @ R)"
      "\<forall>a\<in>set A'. batchKey (h a) \<le> batchKey (h pivot)"
      "\<forall>b\<in>set B'. batchKey (h pivot) < batchKey (h b)"
      by auto
    then show ?thesis
      unfolding step
      by (intro exI[of _ A'] exI[of _ B']) (simp add: add.commute add.left_commute)
  qed
qed

lemma partition_spec:
  assumes "length P = nat low" "0 \<le> low" "high = low + int (length V)"
  shows "\<exists>A B.
     partition h (P @ V @ pv # T) low high = (P @ A @ pv # B @ T, low + int (length A)) \<and>
     mset (A @ B) = mset V \<and>
     (\<forall>a\<in>set A. batchKey (h a) \<le> batchKey (h pv)) \<and>
     (\<forall>b\<in>set B. batchKey (h pv) < batchKey (h b))"
proof -
  have hi: "nat high = length (P @ V)" using assms by simp
  have pv: "(P @ V @ pv # T) ! nat high = pv"
    unfolding hi using nth_append_length[of "P @ V" pv T] by simp
  from partitionLoop_spec[OF assms(1,2), of "[]" h pv "[]" V T] obtain A' B' where
    loop: "partitionLoop h pv high (P @ V @ pv # T) (low - 1) low =
            (P @ A' @ B' @ pv # T, low + int (length A') - 1)"
    and ms: "mset (A' @ B') = mset V"
    and le: "\<forall>a\<in>set A'. batchKey (h a) \<le> batchKey (h pv)"
    and gt: "\<forall>b\<in>set B'. batchKey (h pv) < batchKey (h b)"
    using assms(3) by auto
  from ms have len: "length A' + length B' = length V"
    by (metis length_append size_mset)
  have res: "partition h (P @ V @ pv # T) low high =
      (swapVaccines (P @ A' @ B' @ pv # T) (low + int (length A')) high, low + int (length A'))"
    by (simp add: partition_def pv loop)
  show ?thesis
  proof (cases B')
    case Nil
    then have "high = low + int (length A')" using len assms(3) by simp
    then show ?thesis
      unfolding res using Nil ms le
      by (intro exI[of _ A'] exI[of _ "[]"]) (simp add: swapVaccines_same)
  next
    case (Cons b B0)
    have a_eq: "low + int (length A') = int (length (P @ A'))" using assms by simp
    have h_eq: "high = int (length (P @ A') + 1 + length B0)" using Cons len assms by simp
    have "swapVaccines (P @ A' @ B' @ pv # T) (low + int (length A')) high =
            P @ A' @ pv # B0 @ b # T"
      using swapVaccines_decomp[OF a_eq h_eq, of b pv T] Cons by simp
    then show ?thesis
      unfolding res using Cons ms le gt
      by (intro exI[of _ A'] exI[of _ "B0 @ [b]"]) auto
  qed
qed

lemma insertionInner_spec:
  assumes "length P = nat low" "0 \<le> low"
  shows "\<exists>S1 S2 y.
     insertionInner h key low (P @ S @ x # T) (low + int (length S) - 1) =
       (P @ S1 @ y # S2 @ T, low + int (length S1) - 1) \<and>
     S = S1 @ S2 \<and>
     (S1 \<noteq> [] \<longrightarrow> batchKey (h (last S1)) \<le> batchKey (h key)) \<and>
     (\<forall>b\<in>set S2. batchKey (h key) < batchKey (h b))"
proof (induction S arbitrary: x T rule: rev_induct)
  case Nil
  show ?case
    by (intro exI[of _ "[]"] exI[of _ x]) (simp add: insertionInner.simps)
next
  case (snoc s S)
  let ?arr = "P @ (S @ [s]) @ x # T"
  let ?j = "low + int (length (S @ [s])) - 1"
  have j: "nat ?j = length (P @ S)" using assms by simp
  have sj: "?arr ! nat ?j = s"
    unfolding j using nth_append_length[of "P @ S" s "x # T"] by simp
  have jlow: "?j \<ge> low" by simp
  show ?case
  proof (cases "compareVaccines (h s) (h key) > 0")
    case True
    then have sgt: "batchKey (h key) < batchKey (h s)"
      using compareVaccines_le[of "h s" "h key"] by simp
    have j1: "nat (?j + 1) = length (P @ S @ [s])" using assms by simp
    have upd: "?arr[nat (?j + 1) := s] = P @ S @ s # s # T"
      unfolding j1 using list_update_length[of "P @ S @ [s]" x T s] by simp
    have step: "insertionInner h key low ?arr ?j =
        insertionInner h key low (P @ S @ s # (s # T)) (low + int (length S) - 1)"
      using True jlow sj upd by (subst insertionInner.simps) (simp add: algebra_simps)
    from snoc.IH[of s "s # T"] obtain S1 S2 y where
      "insertionInner h key low (P @ S @ s # s # T) (low + int (length S) - 1) =
         (P @ S1 @ y # S2 @ s # T, low + int (length S1) - 1)"
      "S = S1 @ S2" "S1 \<noteq> [] \<longrightarrow> batchKey (h (last S1)) \<le> batchKey (h key)"
      "\<forall>b\<in>set S2. batchKey (h key) < batchKey (h b)"
      by blast
    then show ?thesis
      unfolding step using sgt
      by (intro exI[of _ S1] exI[of _ "S2 @ [s]"] exI[of _ y]) simp
  next
    case False
    then have sle: "batchKey (h s) \<le> batchKey (h key)"
      using compareVaccines_le[of "h s" "h key"] by simp
    have "insertionInner h key low ?arr ?j = (?arr, ?j)"
      using False sj by (subst insertionInner.simps) simp
    then show ?thesis
      using sle by (intro exI[of _ "S @ [s]"] exI[of _ "[]"] exI[of _ x]) simp
  qed
qed

lemma sorted_le_last: "sorted xs \<Longrightarrow> x \<in> set xs \<Longrightarrow> x \<le> last (xs :: 'k :: linorder list)"
  by (induction xs) auto

lemma sorted_insert_middle:
  assumes "sorted (map f (S1 @ S2))" "S1 \<noteq> [] \<longrightarrow> f (last S1) \<le> (k :: 'k :: linorder)"
    "\<forall>b\<in>set S2. k < f b" "f x = k"
  shows "sorted (map f (S1 @ x # S2))"
proof -
  have s1: "sorted (map f S1)" and s2: "sorted (map f S2)"
    using assms(1) by (simp_all add: sorted_append)
  have le: "f a \<le> k" if "a \<in> set S1" for a
  proof -
    from that have ne: "S1 \<noteq> []" by auto
    have "f a \<le> last (map f S1)" using s1 that by (intro sorted_le_last) auto
    also have "\<dots> = f (last S1)" using ne by (simp add: last_map)
    finally show ?thesis using assms(2) ne by simp
  qed
  show ?thesis
    using s1 s2 le assms(3,4) by (fastforce simp: sorted_append)
qed

lemma insertionOuter_spec:
  assumes "length P = nat low" "0 \<le> low"
  shows "sorted (map (\<lambda>a. batchKey (h a)) S) \<Longrightarrow>
     \<exists>S'. insertionOuter h low (low + int (length S + length U) - 1) (P @ S @ U @ T)
            (low + int (length S)) = P @ S' @ T \<and>
          mset S' = mset (S @ U) \<and> sorted (map (\<lambda>a. batchKey (h a)) S')"
proof (induction U arbitrary: S)
  case Nil
  then show ?case
    by (intro exI[of _ S]) (simp add: insertionOuter.simps)
next
  case (Cons key U)
  let ?arr = "P @ S @ (key # U) @ T"
  let ?high = "low + int (length S + length (key # U)) - 1"
  let ?i = "low + int (length S)"
  have i: "nat ?i = length (P @ S)" using assms by simp
  have ki: "?arr ! nat ?i = key"
    unfolding i using nth_append_length[of "P @ S" key "U @ T"] by simp
  from insertionInner_spec[OF assms, of h key S key "U @ T"] obtain S1 S2 y where
    inner: "insertionInner h key low (P @ S @ key # U @ T) (low + int (length S) - 1) =
              (P @ S1 @ y # S2 @ U @ T, low + int (length S1) - 1)"
    and S: "S = S1 @ S2"
    and le: "S1 \<noteq> [] \<longrightarrow> batchKey (h (last S1)) \<le> batchKey (h key)"
    and gt: "\<forall>b\<in>set S2. batchKey (h key) < batchKey (h b)"
    by blast
  have j1: "nat (low + int (length S1) - 1 + 1) = length (P @ S1)" using assms by simp
  have upd: "(P @ S1 @ y # S2 @ U @ T)[nat (low + int (length S1) - 1 + 1) := key] =
               P @ (S1 @ key # S2) @ U @ T"
    unfolding j1 using list_update_length[of "P @ S1" y "S2 @ U @ T" key] by simp
  have step: "insertionOuter h low ?high ?arr ?i =
      insertionOuter h low ?high (P @ (S1 @ key # S2) @ U @ T) (?i + 1)"
    using inner ki upd by (subst insertionOuter.simps) simp
  have srt: "sorted (map (\<lambda>a. batchKey (h a)) (S1 @ key # S2))"
    using sorted_insert_middle[of "\<lambda>a. batchKey (h a)" S1 S2 "batchKey (h key)" key]
      Cons.prems le gt S by simp
  from Cons.IH[OF srt] obtain S' where
    "insertionOuter h low (low + int (length (S1 @ key # S2) + length U) - 1)
        (P @ (S1 @ key # S2) @ U @ T) (low + int (length (S1 @ key # S2))) = P @ S' @ T"
    "mset S' = mset ((S1 @ key # S2) @ U)" "sorted (map (\<lambda>a. batchKey (h a)) S')"
    by blast
  then show ?case
    unfolding step using S
    by (intro exI[of _ S']) (simp add: add.commute add.left_commute)
qed

lemma insertionSort_spec:
  assumes "length P = nat low" "0 \<le> low" "U \<noteq> []" "high = low + int (length U) - 1"
  shows "\<exists>S. insertionSort h (P @ U @ T) low high = P @ S @ T \<and>
          mset S = mset U \<and> sorted (map (\<lambda>a. batchKey (h a)) S)"
proof -
  from assms(3) obtain u U' where U: "U = u # U'" by (cases U) auto
  from insertionOuter_spec[OF assms(1,2), of h "[u]" U' T] obtain S where
    "insertionOuter h low (low + int (length [u] + length U') - 1) (P @ [u] @ U' @ T)
        (low + int (length [u])) = P @ S @ T"
    "mset S = mset ([u] @ U')" "sorted (map (\<lambda>a. batchKey (h a)) S)"
    by auto
  then show ?thesis
    using U assms(4) by (intro exI[of _ S]) (simp add: insertionSort_def)
qed

lemma quickSort_spec:
  assumes "length P = nat low" "0 \<le> low" "high = low + int (length U) - 1"
  shows "\<exists>S. quickSort h (P @ U @ T) low high = P @ S @ T \<and>
          mset S = mset U \<and> sorted (map (\<lambda>a. batchKey (h a)) S)"
  using assms
proof (induction "length U" arbitrary: P U T low high rule: less_induct)
  case less
  show ?case
  proof (cases "low < high")
    case False
    then have "length U \<le> 1" using less.prems by simp
    then have "sorted (map (\<lambda>a. batchKey (h a)) U)"
      by (cases U; cases "tl U") auto
    then show ?thesis
      using False by (intro exI[of _ U]) (simp add: quickSort.simps)
  next
    case True
    show ?thesis
    proof (cases "high - low < 10")
      case small: True
      have "U \<noteq> []" using True less.prems by auto
      from insertionSort_spec[OF less.prems(1,2) this less.prems(3)]
      show ?thesis
        using True small by (subst quickSort.simps) simp
    next
      case big: False
      have ne: "U \<noteq> []" using True less.prems by auto
      define V where "V = butlast U"
      define pv where "pv = last U"
      have U: "U = V @ [pv]" using ne by (simp add: V_def pv_def)
      have hV: "high = low + int (length V)" using less.prems(3) U by simp
      from partition_spec[OF less.prems(1,2) hV, of h pv T] obtain A B where
        part: "partition h (P @ V @ pv # T) low high = (P @ A @ pv # B @ T, low + int (length A))"
        and ms: "mset (A @ B) = mset V"
        and le: "\<forall>a\<in>set A. batchKey (h a) \<le> batchKey (h pv)"
        and gt: "\<forall>b\<in>set B. batchKey (h pv) < batchKey (h b)"
        by blast
      from ms have len: "length A + length B = length V" by (metis length_append size_mset)
      have lA: "length A < length U" and lB: "length B < length U" using len U by simp_all
      from less.hyps[OF lA less.prems(1,2), of "low + int (length A) - 1" "pv # B @ T"]
      obtain SA where
        qa: "quickSort h (P @ A @ pv # B @ T) low (low + int (length A) - 1) = P @ SA @ pv # B @ T"
        and msa: "mset SA = mset A" and sa: "sorted (map (\<lambda>a. batchKey (h a)) SA)"
        by auto
      from msa have lSA: "length SA = length A" by (metis size_mset)
      have p1: "length (P @ SA @ [pv]) = nat (low + int (length A) + 1)"
        using less.prems(1,2) lSA by simp
      have p2: "0 \<le> low + int (length A) + 1" using less.prems(2) by simp
      have p3: "high = low + int (length A) + 1 + int (length B) - 1" using hV len by simp
      from less.hyps[OF lB p1 p2 p3, of T]
      obtain SB where
        qb: "quickSort h ((P @ SA @ [pv]) @ B @ T) (low + int (length A) + 1) high =
               (P @ SA @ [pv]) @ SB @ T"
        and msb: "mset SB = mset B" and sb: "sorted (map (\<lambda>a. batchKey (h a)) SB)"
        by auto
      have res: "quickSort h (P @ U @ T) low high = P @ (SA @ pv # SB) @ T"
        using True big part qa qb U by (subst quickSort.simps) simp
      have setA: "set SA = set A" and setB: "set SB = set B"
        using msa msb by (metis set_mset_mset)+
      have srt: "sorted (map (\<lambda>a. batchKey (h a)) (SA @ pv # SB))"
        using sa sb le gt setA setB by (fastforce simp: sorted_append)
      have "mset V = mset A + mset B" using ms by simp
      then have "mset (SA @ pv # SB) = mset U" using msa msb U by simp
      then show ?thesis using res srt by blast
    qed
  qed
qed

lemma listAllVaccines_listedAll:
  "listAllVaccines s = map (\<lambda>a. printVaccine (lotHeap s a)) (listedAll s)"
  by (simp add: listAllVaccines_def listedAll_def printAllVaccines_def Let_def quickSort.simps)

lemma listedAll_sorted:
  "mset (listedAll s) = mset (vaccineList s) \<and>
   sorted (map (\<lambda>a. batchKey (lotHeap s a)) (listedAll s))"
  using quickSort_spec[of "[]" 0 "int (length (vaccineList s)) - 1" "vaccineList s" "lotHeap s" "[]"]
  by (auto simp: listedAll_def)

lemma live_keys_inj:
  assumes "indexConsistent s"
  shows "inj_on (\<lambda>a. batchKey (lotHeap s a)) (live s)"
proof (rule inj_onI)
  fix a b assume "a \<in> live s" "b \<in> live s" "batchKey (lotHeap s a) = batchKey (lotHeap s b)"
  then show "a = b"
    using live_id_inj[of s a b] assms by (simp add: indexConsistent_def batchKey_def lotId_def)
qed

text \<open>
  Claim C5. The listing of all batches prints one line per lot of the global list, in
  the format \<open>name id DD-MM-YYYY available used\<close> with
  \<open>available = doses - dosesUsed\<close>; the lots printed are a permutation of the
  global list, in ascending order of validity date and then batch id. In a consistent
  registry these are exactly the live batches (those the id index finds), each once, and
  the order is strict.
\<close>

theorem listAll_sorted_live:
  "\<exists>ys. listAllVaccines s =
          map (\<lambda>a. name (lotHeap s a) @ '' '' @ lot (lotHeap s a) @ '' '' @
                   fmt_02d (day (validation (lotHeap s a))) @ ''-'' @
                   fmt_02d (month (validation (lotHeap s a))) @ ''-'' @
                   fmt_d (year (validation (lotHeap s a))) @ '' '' @
                   fmt_d (doses (lotHeap s a) - dosesUsed (lotHeap s a)) @ '' '' @
                   fmt_d (dosesUsed (lotHeap s a))) ys \<and>
        mset ys = mset (vaccineList s) \<and>
        sorted (map (\<lambda>a. batchKey (lotHeap s a)) ys) \<and>
        (indexConsistent s \<longrightarrow>
           distinct ys \<and>
           (\<forall>a. a \<in> set ys \<longleftrightarrow>
                findVaccineByBatch (lotHeap s) (hashTable s) (lot (lotHeap s a)) HASH_SIZE = Some a) \<and>
           sorted_wrt (\<lambda>a b. batchKey (lotHeap s a) < batchKey (lotHeap s b)) ys)"
proof (intro exI[of _ "listedAll s"] conjI impI)
  show "listAllVaccines s =
          map (\<lambda>a. name (lotHeap s a) @ '' '' @ lot (lotHeap s a) @ '' '' @
                   fmt_02d (day (validation (lotHeap s a))) @ ''-'' @
                   fmt_02d (month (validation (lotHeap s a))) @ ''-'' @
                   fmt_d (year (validation (lotHeap s a))) @ '' '' @
                   fmt_d (doses (lotHeap s a) - dosesUsed (lotHeap s a)) @ '' '' @
                   fmt_d (dosesUsed (lotHeap s a))) (listedAll s)"
    by (simp add: listAllVaccines_listedAll printVaccine_def fmtDate_def)
  show ms: "mset (listedAll s) = mset (vaccineList s)"
    and srt: "sorted (map (\<lambda>a. batchKey (lotHeap s a)) (listedAll s))"
    using listedAll_sorted by auto
  assume ic: "indexConsistent s"
  then have lo: "listOk s" and idd: "idsDistinct s" and bo: "bucketsOk s"
    by (simp_all add: indexConsistent_def)
  have st: "set (listedAll s) = live s"
    using ms lo by (metis listOk_def set_mset_mset)
  show d: "distinct (listedAll s)"
    using ms lo by (metis listOk_def mset_eq_imp_distinct_iff)
  show "\<forall>a. a \<in> set (listedAll s) \<longleftrightarrow>
          findVaccineByBatch (lotHeap s) (hashTable s) (lot (lotHeap s a)) HASH_SIZE = Some a"
    by (simp add: st findVaccineByBatch_iff[OF idd bo] lotId_def)
  have "distinct (map (\<lambda>a. batchKey (lotHeap s a)) (listedAll s))"
    using d live_keys_inj[OF ic] st by (simp add: distinct_map)
  then have "sorted_wrt (<) (map (\<lambda>a. batchKey (lotHeap s a)) (listedAll s))"
    using srt by (simp add: strict_sorted_iff)
  then show "sorted_wrt (\<lambda>a b. batchKey (lotHeap s a) < batchKey (lotHeap s b)) (listedAll s)"
    by (simp add: sorted_wrt_map)
qed

theorem listAll_sorted_live_witness:
  "indexConsistent stateTwoBatches \<and>
   vaccineList stateTwoBatches = [1, 0] \<and>
   listAllVaccines stateTwoBatches = [''V1 B1 01-06-2025 10 0'', ''V1 B2 01-07-2025 10 0''] \<and>
   (\<exists>ys. listAllVaccines stateTwoBatches = map (\<lambda>a. printVaccine (lotHeap stateTwoBatches a)) ys \<and>
         mset ys = mset [1, 0] \<and> distinct ys \<and>
         sorted_wrt (\<lambda>a b. batchKey (lotHeap stateTwoBatches a) < batchKey (lotHeap stateTwoBatches b)) ys)"
proof -
  let ?s = stateTwoBatches
  have h1: "indexConsistent ?s"
    unfolding stateTwoBatches_def by (rule reachable_consistent)
  have h2: "vaccineList ?s = [1, 0]" by (simp add: stateTwoBatches_eq)
  have h3: "listAllVaccines ?s = [''V1 B1 01-06-2025 10 0'', ''V1 B2 01-07-2025 10 0'']"
    by (simp add: stateTwoBatches_eq run_defs)
  have h4: "\<exists>ys. listAllVaccines ?s = map (\<lambda>a. printVaccine (lotHeap ?s a)) ys \<and>
         mset ys = mset [1, 0] \<and> distinct ys \<and>
         sorted_wrt (\<lambda>a b. batchKey (lotHeap ?s a) < batchKey (lotHeap ?s b)) ys"
    using listAll_sorted_live[of ?s] h1 h2
    by (auto simp: printVaccine_def fmtDate_def)
  show ?thesis using h1 h2 h3 h4 by blast
qed

section \<open>Administer: the duplicate guard\<close>

text \<open>
  Claim C4. In a consistent registry, when the user already has an inoculation dated
  today from a batch that carries the vaccine name (whichever batch it is), Administer
  reports AlreadyVaccinated and returns the state it was given, so \<open>dosesUsed\<close>
  of every batch is unchanged.
\<close>

theorem already_vaccinated_guard:
  "indexConsistent s \<and> vaccinatedOn s usr vac cur HASH_SIZE \<longrightarrow>
     processVaccineApplication usr vac HASH_SIZE cur pt s = (s, [msgAlreadyVaccinated pt]) \<and>
     (\<forall>args. extractArguments args = Some (usr, vac) \<longrightarrow>
        commandA args HASH_SIZE cur pt s = (s, [msgAlreadyVaccinated pt]))"
proof (intro impI, elim conjE)
  assume ic: "indexConsistent s" and v: "vaccinatedOn s usr vac cur HASH_SIZE"
  from ic have idd: "idsDistinct s" and bo: "bucketsOk s" and no: "namesOk s"
    and gc: "groupsCover s"
    by (simp_all add: indexConsistent_def)
  from v obtain ue i a where
    ue: "findUserByName (userHashTable s) usr HASH_SIZE = Some ue"
    and i: "i \<in> set (inoculations ue)" "date (inocHeap s i) = cur"
    and a: "findVaccineByBatch (lotHeap s) (hashTable s) (inoc_lot (inocHeap s i)) HASH_SIZE = Some a"
      "name (lotHeap s a) = vac"
    by (auto simp: vaccinatedOn_def list_ex_iff split: option.splits)
  from a(1) have al: "a \<in> live s" "lot (lotHeap s a) = inoc_lot (inocHeap s i)"
    by (simp_all add: findVaccineByBatch_iff[OF idd bo] lotId_def)
  from group_of_live[OF no gc al(1)] a(2) obtain e where
    e: "findVaccineByName (nameHashTable s) vac HASH_SIZE = Some e" "a \<in> set (lots e)"
    by (auto simp: lotName_def)
  have "inoculationMatches (lotHeap s) (inocHeap s i) cur e"
    using i(2) e(2) al(2) by (auto simp: inoculationMatches_def list_ex_iff intro!: bexI[of _ a])
  then have "isAlreadyVaccinated s usr vac cur HASH_SIZE"
    using ue e(1) i(1) by (auto simp: isAlreadyVaccinated_def list_ex_iff)
  then have p: "processVaccineApplication usr vac HASH_SIZE cur pt s = (s, [msgAlreadyVaccinated pt])"
    by (simp add: processVaccineApplication_def)
  then show "processVaccineApplication usr vac HASH_SIZE cur pt s = (s, [msgAlreadyVaccinated pt]) \<and>
     (\<forall>args. extractArguments args = Some (usr, vac) \<longrightarrow>
        commandA args HASH_SIZE cur pt s = (s, [msgAlreadyVaccinated pt]))"
    by (simp add: commandA_def)
qed

theorem already_vaccinated_guard_witness:
  "indexConsistent stateGuardByName \<and>
   vaccinatedOn stateGuardByName ''Alice'' ''V1'' (currentDate stateGuardByName) HASH_SIZE \<and>
   eligibleBatches stateGuardByName ''V1'' (currentDate stateGuardByName) HASH_SIZE = [1] \<and>
   extractArguments ''Alice V1'' = Some (''Alice'', ''V1'') \<and>
   commandA ''Alice V1'' HASH_SIZE (currentDate stateGuardByName) False stateGuardByName =
     (stateGuardByName, [''already vaccinated''])"
proof -
  let ?s = stateGuardByName
  have h1: "indexConsistent ?s"
    unfolding stateGuardByName_def by (rule reachable_consistent)
  have h2: "vaccinatedOn ?s ''Alice'' ''V1'' (currentDate ?s) HASH_SIZE"
    by (simp add: stateGuardByName_eq vaccinatedOn_def run_defs)
  have h3: "eligibleBatches ?s ''V1'' (currentDate ?s) HASH_SIZE = [1]"
    by (simp add: stateGuardByName_eq eligibleBatches_def nameGroup_def eligible_def dateKey_def
        run_defs)
  have h4: "extractArguments ''Alice V1'' = Some (''Alice'', ''V1'')"
    by (simp add: run_defs)
  show ?thesis
    using h1 h2 h3 h4
      already_vaccinated_guard[of ?s "''Alice''" "''V1''" "currentDate ?s" False]
    by (simp add: msgAlreadyVaccinated_def)
qed

section \<open>Retire\<close>

lemma retire_purge:
  assumes ic: "indexConsistent s" and ne: "batch \<noteq> []"
    and found: "findVaccineByBatch (lotHeap s) (hashTable s) batch HASH_SIZE = Some l"
    and z: "dosesUsed (lotHeap s l) = 0"
  shows "findVaccineByBatch (lotHeap (fst (commandR batch HASH_SIZE pt s)))
             (hashTable (fst (commandR batch HASH_SIZE pt s))) batch HASH_SIZE = None \<and>
           (\<forall>a\<in>set (listedAll (fst (commandR batch HASH_SIZE pt s))).
              lot (lotHeap (fst (commandR batch HASH_SIZE pt s)) a) \<noteq> batch) \<and>
           (\<forall>vac. \<forall>a\<in>set (nameGroup (fst (commandR batch HASH_SIZE pt s)) vac HASH_SIZE).
              lot (lotHeap (fst (commandR batch HASH_SIZE pt s)) a) \<noteq> batch)"
proof -
  define s' where "s' = fst (commandR batch HASH_SIZE pt s)"
  have s': "s' = handleUnusedVaccineLot batch HASH_SIZE s"
    using found ne z by (simp add: s'_def commandR_def)
  from purge_consistent[OF ic found]
  have ic': "indexConsistent s'" and live': "live s' = live s - {l}" and heap: "lotHeap s' = lotHeap s"
    by (simp_all add: s')
  from ic have idd: "idsDistinct s" and bo: "bucketsOk s" by (simp_all add: indexConsistent_def)
  from ic' have idd': "idsDistinct s'" and bo': "bucketsOk s'" and lo': "listOk s'" and no': "namesOk s'"
    by (simp_all add: indexConsistent_def)
  from found have l: "l \<in> live s" "lotId s l = batch"
    by (simp_all add: findVaccineByBatch_iff[OF idd bo])
  have gone: "lotId s' a \<noteq> batch" if "a \<in> live s'" for a
  proof
    assume "lotId s' a = batch"
    then have "lotId s a = lotId s l" using l heap by (simp add: lotId_def)
    moreover have "a \<in> live s" "a \<noteq> l" using that live' by auto
    ultimately show False using live_id_inj[OF idd bo _ l(1)] by blast
  qed
  have a: "findVaccineByBatch (lotHeap s') (hashTable s') batch HASH_SIZE = None"
    using gone by (simp add: findVaccineByBatch_None_iff[OF bo'])
  have "set (listedAll s') = live s'"
    using listedAll_sorted[of s'] lo' by (metis listOk_def set_mset_mset)
  then have b: "\<forall>a\<in>set (listedAll s'). lot (lotHeap s' a) \<noteq> batch"
    using gone by (auto simp: lotId_def)
  have "set (nameGroup s' vac HASH_SIZE) \<subseteq> live s'" for vac
  proof (cases "findVaccineByName (nameHashTable s') vac HASH_SIZE")
    case None
    then show ?thesis by (simp add: nameGroup_def)
  next
    case (Some e)
    then have "e \<in> set (nameHashTable s' (hashString vac HASH_SIZE))"
      by (simp add: findVaccineByName_iff[OF no'])
    then have "set (lots e) \<subseteq> live s'" using no' by (auto simp: namesOk_def)
    then show ?thesis using Some by (simp add: nameGroup_def)
  qed
  then have c: "\<forall>vac. \<forall>a\<in>set (nameGroup s' vac HASH_SIZE). lot (lotHeap s' a) \<noteq> batch"
    using gone by (auto simp: lotId_def)
  show ?thesis using a b c unfolding s'_def by blast
qed

lemma retire_freeze:
  assumes ic: "indexConsistent s" and ne: "batch \<noteq> []"
    and found: "findVaccineByBatch (lotHeap s) (hashTable s) batch HASH_SIZE = Some l"
    and nz: "dosesUsed (lotHeap s l) \<noteq> 0"
  shows "fst (commandR batch HASH_SIZE pt s) =
             s\<lparr>lotHeap := (lotHeap s)
                 (l := (lotHeap s l)\<lparr>isRemoved := True, doses := dosesUsed (lotHeap s l)\<rparr>)\<rparr> \<and>
           l \<in> set (listedAll (fst (commandR batch HASH_SIZE pt s))) \<and>
           l \<in> set (nameGroup (fst (commandR batch HASH_SIZE pt s)) (name (lotHeap s l)) HASH_SIZE) \<and>
           (\<forall>cmds. isRemoved (lotHeap (fst (processCommands pt cmds (fst (commandR batch HASH_SIZE pt s)))) l) \<and>
              dosesUsed (lotHeap (fst (processCommands pt cmds (fst (commandR batch HASH_SIZE pt s)))) l) =
                dosesUsed (lotHeap s l) \<and>
              doses (lotHeap (fst (processCommands pt cmds (fst (commandR batch HASH_SIZE pt s)))) l) -
                dosesUsed (lotHeap (fst (processCommands pt cmds (fst (commandR batch HASH_SIZE pt s)))) l) = 0 \<and>
              (\<forall>vac cur. findOldestValidLot
                 (fst (processCommands pt cmds (fst (commandR batch HASH_SIZE pt s)))) vac cur HASH_SIZE
                   \<noteq> Some l))"
proof -
  define s' where "s' = fst (commandR batch HASH_SIZE pt s)"
  have ic': "indexConsistent s'" unfolding s'_def using ic by (rule commandR_consistent)
  have s': "s' = s\<lparr>lotHeap := (lotHeap s)
                 (l := (lotHeap s l)\<lparr>isRemoved := True, doses := dosesUsed (lotHeap s l)\<rparr>)\<rparr>"
    using found ne nz by (simp add: s'_def commandR_def handleUsedVaccineLot_def)
  from ic have idd: "idsDistinct s" and bo: "bucketsOk s" and no: "namesOk s" and gc: "groupsCover s"
    by (simp_all add: indexConsistent_def)
  from found have l: "l \<in> live s" by (simp add: findVaccineByBatch_iff[OF idd bo])
  have "live s' = live s" by (simp add: s' live_def)
  moreover have "set (listedAll s') = live s'"
    using listedAll_sorted[of s'] ic' by (metis indexConsistent_def listOk_def set_mset_mset)
  ultimately have a: "l \<in> set (listedAll s')" using l by simp
  from group_of_live[OF no gc l] have "l \<in> set (nameGroup s (name (lotHeap s l)) HASH_SIZE)"
    by (auto simp: nameGroup_def lotName_def)
  moreover have "nameGroup s' vac HASH_SIZE = nameGroup s vac HASH_SIZE" for vac
    by (simp add: s' nameGroup_def)
  ultimately have b: "l \<in> set (nameGroup s' (name (lotHeap s l)) HASH_SIZE)" by simp
  have fr: "frozenLot s' l"
    using live_below_next[OF bo l] by (simp add: frozenLot_def s')
  have c: "isRemoved (lotHeap (fst (processCommands pt cmds s')) l) \<and>
           dosesUsed (lotHeap (fst (processCommands pt cmds s')) l) = dosesUsed (lotHeap s l) \<and>
           doses (lotHeap (fst (processCommands pt cmds s')) l) -
             dosesUsed (lotHeap (fst (processCommands pt cmds s')) l) = 0 \<and>
           (\<forall>vac cur. findOldestValidLot (fst (processCommands pt cmds s')) vac cur HASH_SIZE \<noteq> Some l)"
    for cmds
  proof -
    define s'' where "s'' = fst (processCommands pt cmds s')"
    from processCommands_frozen[OF fr, of pt cmds]
    have same: "lotHeap s'' l = lotHeap s' l" by (simp add: s''_def)
    have r: "isRemoved (lotHeap s'' l)" "dosesUsed (lotHeap s'' l) = dosesUsed (lotHeap s l)"
      "doses (lotHeap s'' l) - dosesUsed (lotHeap s'' l) = 0"
      by (simp_all add: same s')
    have "\<forall>vac cur. findOldestValidLot s'' vac cur HASH_SIZE \<noteq> Some l"
      using frozen_never_selected[OF r(1)] by blast
    then show ?thesis using r unfolding s''_def by blast
  qed
  show ?thesis using s' a b c unfolding s'_def by blast
qed

text \<open>
  Claim C3. In a consistent registry, for a batch argument that is not empty: an id the
  index does not hold reports UnknownBatchId and changes nothing; for a batch that is
  found, Retire prints its \<open>dosesUsed\<close>. With \<open>dosesUsed = 0\<close> the batch
  is purged: afterwards the id is not found, no lot printed by the listing of all
  batches or held by any name group has that id. Otherwise the batch is frozen in place:
  only its \<open>isRemoved\<close> flag and its \<open>doses\<close> (set to
  \<open>dosesUsed\<close>) change, it is still listed, and after any later commands it is
  still frozen with the same \<open>dosesUsed\<close> and no available dose, and the
  allocation never selects it.
\<close>

theorem retire_behaviour:
  "indexConsistent s \<and> batch \<noteq> [] \<longrightarrow>
     (findVaccineByBatch (lotHeap s) (hashTable s) batch HASH_SIZE = None \<longrightarrow>
        commandR batch HASH_SIZE pt s = (s, [msgNoSuchBatch pt batch])) \<and>
     (\<forall>l. findVaccineByBatch (lotHeap s) (hashTable s) batch HASH_SIZE = Some l \<longrightarrow>
        snd (commandR batch HASH_SIZE pt s) = [fmt_d (dosesUsed (lotHeap s l))] \<and>
        (dosesUsed (lotHeap s l) = 0 \<longrightarrow>
           findVaccineByBatch (lotHeap (fst (commandR batch HASH_SIZE pt s)))
             (hashTable (fst (commandR batch HASH_SIZE pt s))) batch HASH_SIZE = None \<and>
           (\<forall>a\<in>set (listedAll (fst (commandR batch HASH_SIZE pt s))).
              lot (lotHeap (fst (commandR batch HASH_SIZE pt s)) a) \<noteq> batch) \<and>
           (\<forall>vac. \<forall>a\<in>set (nameGroup (fst (commandR batch HASH_SIZE pt s)) vac HASH_SIZE).
              lot (lotHeap (fst (commandR batch HASH_SIZE pt s)) a) \<noteq> batch)) \<and>
        (dosesUsed (lotHeap s l) \<noteq> 0 \<longrightarrow>
           fst (commandR batch HASH_SIZE pt s) =
             s\<lparr>lotHeap := (lotHeap s)
                 (l := (lotHeap s l)\<lparr>isRemoved := True, doses := dosesUsed (lotHeap s l)\<rparr>)\<rparr> \<and>
           l \<in> set (listedAll (fst (commandR batch HASH_SIZE pt s))) \<and>
           l \<in> set (nameGroup (fst (commandR batch HASH_SIZE pt s)) (name (lotHeap s l)) HASH_SIZE) \<and>
           (\<forall>cmds. isRemoved (lotHeap (fst (processCommands pt cmds (fst (commandR batch HASH_SIZE pt s)))) l) \<and>
              dosesUsed (lotHeap (fst (processCommands pt cmds (fst (commandR batch HASH_SIZE pt s)))) l) =
                dosesUsed (lotHeap s l) \<and>
              doses (lotHeap (fst (processCommands pt cmds (fst (commandR batch HASH_SIZE pt s)))) l) -
                dosesUsed (lotHeap (fst (processCommands pt cmds (fst (commandR batch HASH_SIZE pt s)))) l) = 0 \<and>
              (\<forall>vac cur. findOldestValidLot
                 (fst (processCommands pt cmds (fst (commandR batch HASH_SIZE pt s)))) vac cur HASH_SIZE
                   \<noteq> Some l))))"
proof (intro impI)
  assume "indexConsistent s \<and> batch \<noteq> []"
  then have ic: "indexConsistent s" and ne: "batch \<noteq> []" by auto
  have A: "findVaccineByBatch (lotHeap s) (hashTable s) batch HASH_SIZE = None \<longrightarrow>
        commandR batch HASH_SIZE pt s = (s, [msgNoSuchBatch pt batch])"
    using ne by (simp add: commandR_def)
  have B: "snd (commandR batch HASH_SIZE pt s) = [fmt_d (dosesUsed (lotHeap s l))]"
    if "findVaccineByBatch (lotHeap s) (hashTable s) batch HASH_SIZE = Some l" for l
    using that ne by (simp add: commandR_def)
  show "(findVaccineByBatch (lotHeap s) (hashTable s) batch HASH_SIZE = None \<longrightarrow>
        commandR batch HASH_SIZE pt s = (s, [msgNoSuchBatch pt batch])) \<and>
     (\<forall>l. findVaccineByBatch (lotHeap s) (hashTable s) batch HASH_SIZE = Some l \<longrightarrow>
        snd (commandR batch HASH_SIZE pt s) = [fmt_d (dosesUsed (lotHeap s l))] \<and>
        (dosesUsed (lotHeap s l) = 0 \<longrightarrow>
           findVaccineByBatch (lotHeap (fst (commandR batch HASH_SIZE pt s)))
             (hashTable (fst (commandR batch HASH_SIZE pt s))) batch HASH_SIZE = None \<and>
           (\<forall>a\<in>set (listedAll (fst (commandR batch HASH_SIZE pt s))).
              lot (lotHeap (fst (commandR batch HASH_SIZE pt s)) a) \<noteq> batch) \<and>
           (\<forall>vac. \<forall>a\<in>set (nameGroup (fst (commandR batch HASH_SIZE pt s)) vac HASH_SIZE).
              lot (lotHeap (fst (commandR batch HASH_SIZE pt s)) a) \<noteq> batch)) \<and>
        (dosesUsed (lotHeap s l) \<noteq> 0 \<longrightarrow>
           fst (commandR batch HASH_SIZE pt s) =
             s\<lparr>lotHeap := (lotHeap s)
                 (l := (lotHeap s l)\<lparr>isRemoved := True, doses := dosesUsed (lotHeap s l)\<rparr>)\<rparr> \<and>
           l \<in> set (listedAll (fst (commandR batch HASH_SIZE pt s))) \<and>
           l \<in> set (nameGroup (fst (commandR batch HASH_SIZE pt s)) (name (lotHeap s l)) HASH_SIZE) \<and>
           (\<forall>cmds. isRemoved (lotHeap (fst (processCommands pt cmds (fst (commandR batch HASH_SIZE pt s)))) l) \<and>
              dosesUsed (lotHeap (fst (processCommands pt cmds (fst (commandR batch HASH_SIZE pt s)))) l) =
                dosesUsed (lotHeap s l) \<and>
              doses (lotHeap (fst (processCommands pt cmds (fst (commandR batch HASH_SIZE pt s)))) l) -
                dosesUsed (lotHeap (fst (processCommands pt cmds (fst (commandR batch HASH_SIZE pt s)))) l) = 0 \<and>
              (\<forall>vac cur. findOldestValidLot
                 (fst (processCommands pt cmds (fst (commandR batch HASH_SIZE pt s)))) vac cur HASH_SIZE
                   \<noteq> Some l))))"
    using A B retire_purge[OF ic ne, of _ pt] retire_freeze[OF ic ne, of _ pt]
    by blast
qed

theorem retire_behaviour_witness:
  "indexConsistent stateOneDoseUsed \<and>
   findVaccineByBatch (lotHeap stateOneDoseUsed) (hashTable stateOneDoseUsed) ''A1'' HASH_SIZE = Some 0 \<and>
   dosesUsed (lotHeap stateOneDoseUsed 0) = 1 \<and>
   snd (commandR ''A1'' HASH_SIZE False stateOneDoseUsed) = [''1''] \<and>
   0 \<in> set (listedAll (fst (commandR ''A1'' HASH_SIZE False stateOneDoseUsed))) \<and>
   isRemoved (lotHeap (fst (processCommands False [''a Bob V1'', ''r A1'']
     (fst (commandR ''A1'' HASH_SIZE False stateOneDoseUsed)))) 0) \<and>
   snd (processCommands False [''a Bob V1'', ''l'']
     (fst (commandR ''A1'' HASH_SIZE False stateOneDoseUsed))) =
     [''no stock'', ''V1 A1 01-06-2025 0 1''] \<and>
   indexConsistent stateOneBatch \<and>
   findVaccineByBatch (lotHeap stateOneBatch) (hashTable stateOneBatch) ''A1'' HASH_SIZE = Some 0 \<and>
   dosesUsed (lotHeap stateOneBatch 0) = 0 \<and>
   snd (commandR ''A1'' HASH_SIZE False stateOneBatch) = [''0''] \<and>
   findVaccineByBatch (lotHeap (fst (commandR ''A1'' HASH_SIZE False stateOneBatch)))
     (hashTable (fst (commandR ''A1'' HASH_SIZE False stateOneBatch))) ''A1'' HASH_SIZE = None \<and>
   listAllVaccines (fst (commandR ''A1'' HASH_SIZE False stateOneBatch)) = [] \<and>
   findVaccineByBatch (lotHeap stateOneBatch) (hashTable stateOneBatch) ''FF'' HASH_SIZE = None \<and>
   commandR ''FF'' HASH_SIZE False stateOneBatch = (stateOneBatch, [''FF: no such batch''])"
proof -
  let ?s = stateOneDoseUsed and ?t = stateOneBatch
  have h1: "indexConsistent ?s" unfolding stateOneDoseUsed_def by (rule reachable_consistent)
  have h2: "findVaccineByBatch (lotHeap ?s) (hashTable ?s) ''A1'' HASH_SIZE = Some 0"
    by (simp add: stateOneDoseUsed_eq run_defs)
  have h3: "dosesUsed (lotHeap ?s 0) = 1" by (simp add: stateOneDoseUsed_eq)
  have h4: "indexConsistent ?t" unfolding stateOneBatch_def by (rule reachable_consistent)
  have h5: "findVaccineByBatch (lotHeap ?t) (hashTable ?t) ''A1'' HASH_SIZE = Some 0"
    by (simp add: stateOneBatch_eq run_defs)
  have h6: "dosesUsed (lotHeap ?t 0) = 0" by (simp add: stateOneBatch_eq)
  have h7: "findVaccineByBatch (lotHeap ?t) (hashTable ?t) ''FF'' HASH_SIZE = None"
    by (simp add: stateOneBatch_eq run_defs)
  have h8: "fmt_d 1 = ''1''" "fmt_d 0 = ''0''" by (simp_all add: run_defs)
  have e1: "snd (processCommands False [''a Bob V1'', ''l'']
     (fst (commandR ''A1'' HASH_SIZE False ?s))) = [''no stock'', ''V1 A1 01-06-2025 0 1'']"
    by (simp add: stateOneDoseUsed_eq run_defs)
  have e2: "listAllVaccines (fst (commandR ''A1'' HASH_SIZE False ?t)) = []"
    by (simp add: stateOneBatch_eq run_defs)
  have ne: "''A1'' \<noteq> []" "''FF'' \<noteq> []" by simp_all
  have nz: "dosesUsed (lotHeap ?s 0) \<noteq> 0" using h3 by simp
  note found = retire_behaviour[of ?s "''A1''" False, THEN mp, OF conjI[OF h1 ne(1)],
      THEN conjunct2, THEN spec, of 0, THEN mp, OF h2]
  note frozen = found[THEN conjunct2, THEN conjunct2, THEN mp, OF nz]
  have c1: "snd (commandR ''A1'' HASH_SIZE False ?s) = [''1'']"
    using found[THEN conjunct1] h3 h8 by simp
  have c2: "0 \<in> set (listedAll (fst (commandR ''A1'' HASH_SIZE False ?s)))"
    by (rule frozen[THEN conjunct2, THEN conjunct1])
  have c3: "isRemoved (lotHeap (fst (processCommands False [''a Bob V1'', ''r A1'']
               (fst (commandR ''A1'' HASH_SIZE False ?s)))) 0)"
    by (rule frozen[THEN conjunct2, THEN conjunct2, THEN conjunct2, THEN spec, THEN conjunct1])
  note found' = retire_behaviour[of ?t "''A1''" False, THEN mp, OF conjI[OF h4 ne(1)],
      THEN conjunct2, THEN spec, of 0, THEN mp, OF h5]
  have c4: "snd (commandR ''A1'' HASH_SIZE False ?t) = [''0'']"
    using found'[THEN conjunct1] h6 h8 by simp
  have c5: "findVaccineByBatch (lotHeap (fst (commandR ''A1'' HASH_SIZE False ?t)))
               (hashTable (fst (commandR ''A1'' HASH_SIZE False ?t))) ''A1'' HASH_SIZE = None"
    by (rule found'[THEN conjunct2, THEN conjunct1, THEN mp, OF h6, THEN conjunct1])
  have c6: "commandR ''FF'' HASH_SIZE False ?t = (?t, [''FF: no such batch''])"
    using retire_behaviour[of ?t "''FF''" False, THEN mp, OF conjI[OF h4 ne(2)],
        THEN conjunct1, THEN mp, OF h7]
    by (simp add: msgNoSuchBatch_def)
  show ?thesis using h1 h2 h3 h4 h5 h6 h7 e1 e2 c1 c2 c3 c4 c5 c6 by blast
qed

end
